theory Spec2Isabelle
  imports Complex_Main "HOL-Library.Word" "HOL-Library.Signed_Division"
begin

unbundle bit_operations_syntax

section \<open>C values and undefined behaviour\<close>

text \<open>
  The library (\<^verbatim>\<open>samples/source/library/mathlib.c\<close>) computes with \<^verbatim>\<open>int\<close>,
  \<^verbatim>\<open>unsigned int\<close> and \<^verbatim>\<open>long long\<close>. They are 32-bit and 64-bit words here: an
  \<^verbatim>\<open>int\<close> is read with \<open>sint\<close> (two's complement), an \<^verbatim>\<open>unsigned int\<close> with \<open>unat\<close>.
  Unsigned arithmetic wraps around, as the word operations do. Signed arithmetic whose
  mathematical result is not representable is undefined in C: the model computes the
  mathematical result on \<open>int\<close> and returns \<open>Inl SignedOverflow\<close> when it does not fit,
  so that no theorem promises anything about such a run. A read through an array
  pointer beyond the elements it points to is \<open>Inl InvalidRead\<close>.
\<close>

type_synonym c_int = "32 word"
type_synonym c_uint = "32 word"
type_synonym c_llong = "64 word"

datatype undefined_behaviour = SignedOverflow | InvalidRead

type_synonym 'a outcome = "undefined_behaviour + 'a"

definition and_then :: "'a outcome \<Rightarrow> ('a \<Rightarrow> 'b outcome) \<Rightarrow> 'b outcome" where
  "and_then m f = (case m of Inl u \<Rightarrow> Inl u | Inr x \<Rightarrow> f x)"

lemma and_then_cong [fundef_cong]:
  "m = m' \<Longrightarrow> (\<And>x. m' = Inr x \<Longrightarrow> f x = f' x) \<Longrightarrow> and_then m f = and_then m' f'"
  by (cases m') (simp_all add: and_then_def)

definition INT_MAX :: int where
  "INT_MAX = 2147483647"

definition INT_MIN :: int where
  "INT_MIN = - 2147483648"

definition LLONG_MAX :: int where
  "LLONG_MAX = 9223372036854775807"

definition LLONG_MIN :: int where
  "LLONG_MIN = - 9223372036854775808"

text \<open>The value of an \<^verbatim>\<open>int\<close> expression whose mathematical result is \<open>v\<close>.\<close>

definition as_int :: "int \<Rightarrow> c_int outcome" where
  "as_int v = (if INT_MIN \<le> v \<and> v \<le> INT_MAX then Inr (word_of_int v) else Inl SignedOverflow)"

text \<open>The same for \<^verbatim>\<open>long long\<close>.\<close>

definition as_llong :: "int \<Rightarrow> c_llong outcome" where
  "as_llong v =
     (if LLONG_MIN \<le> v \<and> v \<le> LLONG_MAX then Inr (word_of_int v) else Inl SignedOverflow)"

text \<open>\<^verbatim>\<open>abs\<close> of \<^verbatim>\<open>stdlib.h\<close>: undefined when the result is not representable.\<close>

definition c_abs :: "c_int \<Rightarrow> c_int outcome" where
  "c_abs a = as_int \<bar>sint a\<bar>"

section \<open>Library state\<close>

text \<open>
  \<^verbatim>\<open>static unsigned int g_random_seed = 12345; static int g_call_count = 0;\<close>
  Every counting operation starts with \<^verbatim>\<open>g_call_count++\<close>, a signed increment.
\<close>

record lib_state =
  g_random_seed :: c_uint
  g_call_count :: c_int

definition mathlib_init :: lib_state where
  "mathlib_init = \<lparr>g_random_seed = 12345, g_call_count = 0\<rparr>"

definition count_call :: "lib_state \<Rightarrow> lib_state outcome" where
  "count_call s =
     and_then (as_int (sint (g_call_count s) + 1)) (\<lambda>c. Inr (s\<lparr>g_call_count := c\<rparr>))"

section \<open>Version functions\<close>

definition mathlib_version :: "lib_state \<Rightarrow> (string \<times> lib_state) outcome" where
  "mathlib_version s = and_then (count_call s) (\<lambda>s1. Inr (''1.0.0'', s1))"

definition mathlib_version_major :: "lib_state \<Rightarrow> c_int \<times> lib_state" where
  "mathlib_version_major s = (1, s)"

definition mathlib_version_minor :: "lib_state \<Rightarrow> c_int \<times> lib_state" where
  "mathlib_version_minor s = (0, s)"

section \<open>Basic math operations\<close>

text \<open>
  \<^verbatim>\<open>if ((b > 0 && a > INT_MAX - b) || (b < 0 && a < INT_MIN - b)) return 0; return a + b;\<close>
  The subtraction \<^verbatim>\<open>INT_MAX - b\<close> is evaluated only when \<^verbatim>\<open>b > 0\<close> and
  \<^verbatim>\<open>INT_MIN - b\<close> only when \<^verbatim>\<open>b < 0\<close>, where both are representable; the sum
  \<^verbatim>\<open>a + b\<close> is checked.
\<close>

definition mathlib_add :: "c_int \<Rightarrow> c_int \<Rightarrow> lib_state \<Rightarrow> (c_int \<times> lib_state) outcome" where
  "mathlib_add a b s =
     and_then (count_call s) (\<lambda>s1.
       if (sint b > 0 \<and> sint a > INT_MAX - sint b) \<or> (sint b < 0 \<and> sint a < INT_MIN - sint b)
       then Inr (0, s1)
       else and_then (as_int (sint a + sint b)) (\<lambda>r. Inr (r, s1)))"

text \<open>
  \<^verbatim>\<open>if ((b < 0 && a > INT_MAX + b) || (b > 0 && a < INT_MIN + b)) return 0; return a - b;\<close>
\<close>

definition mathlib_subtract :: "c_int \<Rightarrow> c_int \<Rightarrow> lib_state \<Rightarrow> (c_int \<times> lib_state) outcome" where
  "mathlib_subtract a b s =
     and_then (count_call s) (\<lambda>s1.
       if (sint b < 0 \<and> sint a > INT_MAX + sint b) \<or> (sint b > 0 \<and> sint a < INT_MIN + sint b)
       then Inr (0, s1)
       else and_then (as_int (sint a - sint b)) (\<lambda>r. Inr (r, s1)))"

text \<open>
  \<^verbatim>\<open>if (a != 0 && abs(b) > INT_MAX / abs(a)) return 0; return a * b;\<close>
  Both calls of \<^verbatim>\<open>abs\<close> are evaluated when \<^verbatim>\<open>a != 0\<close>; the division is C's truncating
  one, by a divisor that is at least 1 there.
\<close>

definition mathlib_multiply :: "c_int \<Rightarrow> c_int \<Rightarrow> lib_state \<Rightarrow> (c_int \<times> lib_state) outcome" where
  "mathlib_multiply a b s =
     and_then (count_call s) (\<lambda>s1.
       and_then
         (if a \<noteq> 0
          then and_then (c_abs b) (\<lambda>ab. and_then (c_abs a) (\<lambda>aa.
                 Inr (sint ab > INT_MAX sdiv sint aa)))
          else Inr False)
         (\<lambda>overflow.
            if overflow then Inr (0, s1)
            else and_then (as_int (sint a * sint b)) (\<lambda>r. Inr (r, s1))))"

text \<open>
  \<^verbatim>\<open>double\<close> arithmetic is the platform's. The functions that compute with doubles take
  the operations they use as arguments, over any type \<open>'d\<close> of double values: the
  comparison \<^verbatim>\<open>==\<close>, the arithmetic operations, \<^verbatim>\<open>sqrt\<close>, the conversion from
  \<^verbatim>\<open>int\<close> and the constants \<^verbatim>\<open>0.0\<close> and \<^verbatim>\<open>-1.0\<close>.

  \<^verbatim>\<open>if (b == 0.0) return 0.0; return a / b;\<close>
\<close>

definition mathlib_divide ::
  "('d \<Rightarrow> 'd \<Rightarrow> bool) \<Rightarrow> ('d \<Rightarrow> 'd \<Rightarrow> 'd) \<Rightarrow> 'd \<Rightarrow> 'd \<Rightarrow> 'd \<Rightarrow> lib_state \<Rightarrow>
     ('d \<times> lib_state) outcome" where
  "mathlib_divide double_eq double_div double_zero a b s =
     and_then (count_call s) (\<lambda>s1.
       if double_eq b double_zero then Inr (double_zero, s1)
       else Inr (double_div a b, s1))"

section \<open>Advanced operations\<close>

text \<open>
  \<^verbatim>\<open>long long result = 1; for (int i = 2; i <= n && i <= 20; i++) result *= i;\<close>
  The counter \<open>i\<close> stays below 22; the product is a \<^verbatim>\<open>long long\<close> multiplication
  and is checked.
\<close>

function factorial_loop :: "c_int \<Rightarrow> int \<Rightarrow> c_llong \<Rightarrow> c_llong outcome" where
  "factorial_loop n i result =
     (if i \<le> sint n \<and> i \<le> 20
      then and_then (as_llong (sint result * i)) (\<lambda>r. factorial_loop n (i + 1) r)
      else Inr result)"
  by pat_completeness auto
termination
  by (relation "measure (\<lambda>(n, i, result). nat (21 - i))") auto

definition mathlib_factorial :: "c_int \<Rightarrow> lib_state \<Rightarrow> (c_llong \<times> lib_state) outcome" where
  "mathlib_factorial n s =
     and_then (count_call s) (\<lambda>s1.
       if sint n < 0 then Inr (- 1, s1)
       else if n = 0 \<or> n = 1 then Inr (1, s1)
       else and_then (factorial_loop n 2 1) (\<lambda>r. Inr (r, s1)))"

text \<open>
  \<^verbatim>\<open>int a = 0, b = 1, temp; for (int i = 2; i <= n; i++) { temp = a + b; a = b; b = temp; }\<close>
  The sum is checked; it stops being representable at \<open>i = 47\<close>, long before the
  counter \<open>i\<close> could.
\<close>

function fibonacci_loop :: "c_int \<Rightarrow> int \<Rightarrow> c_int \<Rightarrow> c_int \<Rightarrow> c_int outcome" where
  "fibonacci_loop n i a b =
     (if i \<le> sint n
      then and_then (as_int (sint a + sint b)) (\<lambda>temp. fibonacci_loop n (i + 1) b temp)
      else Inr b)"
  by pat_completeness auto
termination
  by (relation "measure (\<lambda>(n, i, a, b). nat (sint n + 1 - i))") auto

definition mathlib_fibonacci :: "c_int \<Rightarrow> lib_state \<Rightarrow> (c_int \<times> lib_state) outcome" where
  "mathlib_fibonacci n s =
     and_then (count_call s) (\<lambda>s1.
       if sint n \<le> 0 then Inr (0, s1)
       else if n = 1 then Inr (1, s1)
       else and_then (fibonacci_loop n 2 0 1) (\<lambda>r. Inr (r, s1)))"

text \<open>
  \<^verbatim>\<open>a = abs(a); b = abs(b); while (b != 0) { int temp = b; b = a % b; a = temp; }\<close>
  After the two \<^verbatim>\<open>abs\<close> the loop computes with values between 0 and \<open>INT_MAX\<close>.
\<close>

function gcd_loop :: "int \<Rightarrow> int \<Rightarrow> int" where
  "gcd_loop a b = (if b \<noteq> 0 then gcd_loop b (a smod b) else a)"
  by pat_completeness auto
termination
proof (relation "measure (\<lambda>(a, b). nat \<bar>b\<bar>)")
  show "wf (measure (\<lambda>(a, b). nat \<bar>b\<bar>))"
    by simp
next
  fix a b :: int
  assume "b \<noteq> 0"
  with smod_int_range [where a = a and b = b] show "((b, a smod b), (a, b)) \<in> measure (\<lambda>(a, b). nat \<bar>b\<bar>)"
    by auto
qed

definition mathlib_gcd :: "c_int \<Rightarrow> c_int \<Rightarrow> lib_state \<Rightarrow> (c_int \<times> lib_state) outcome" where
  "mathlib_gcd a b s =
     and_then (count_call s) (\<lambda>s1.
       and_then (c_abs a) (\<lambda>a1.
         and_then (c_abs b) (\<lambda>b1.
           Inr (word_of_int (gcd_loop (sint a1) (sint b1)), s1))))"

text \<open>
  \<^verbatim>\<open>for (int i = 5; i * i <= n; i += 6) { if (n % i == 0 || n % (i + 2) == 0) return 0; }\<close>
  The square \<^verbatim>\<open>i * i\<close> is an \<^verbatim>\<open>int\<close> multiplication and is checked; while it is
  representable, \<open>i + 2\<close> and \<open>i + 6\<close> are too. \<^verbatim>\<open>%\<close> is C's truncating remainder.
\<close>

function is_prime_loop :: "c_int \<Rightarrow> int \<Rightarrow> c_int outcome" where
  "is_prime_loop n i =
     and_then (as_int (i * i)) (\<lambda>square.
       if sint square \<le> sint n
       then (if sint n smod i = 0 \<or> sint n smod (i + 2) = 0 then Inr 0
             else is_prime_loop n (i + 6))
       else Inr 1)"
  by pat_completeness auto
termination
proof (relation "measure (\<lambda>(n, i). nat (2147483648 - i))")
  show "wf (measure (\<lambda>(n, i). nat (2147483648 - i)))"
    by simp
next
  fix n :: c_int and i :: int and square :: c_int
  assume "as_int (i * i) = Inr square"
  then have "i * i \<le> 2147483647"
    by (simp add: as_int_def INT_MAX_def split: if_splits)
  moreover have "i \<le> i * i"
    by (cases "i \<le> 0") (simp_all add: zero_le_mult_iff order_trans [of i 0])
  ultimately show "((n, i + 6), (n, i)) \<in> measure (\<lambda>(n, i). nat (2147483648 - i))"
    by simp
qed

definition mathlib_is_prime :: "c_int \<Rightarrow> lib_state \<Rightarrow> (c_int \<times> lib_state) outcome" where
  "mathlib_is_prime n s =
     and_then (count_call s) (\<lambda>s1.
       if sint n \<le> 1 then Inr (0, s1)
       else if sint n \<le> 3 then Inr (1, s1)
       else if sint n smod 2 = 0 \<or> sint n smod 3 = 0 then Inr (0, s1)
       else and_then (is_prime_loop n 5) (\<lambda>r. Inr (r, s1)))"

section \<open>Array operations\<close>

text \<open>
  An argument \<^verbatim>\<open>const int* array\<close> is \<open>None\<close> for the null pointer and \<open>Some xs\<close>
  for a pointer to the first of the elements \<open>xs\<close>; \<^verbatim>\<open>size\<close> is \<open>sz\<close> and is passed separately,
  as in C, and reading \<^verbatim>\<open>array[i]\<close> beyond \<open>xs\<close> is undefined. The loop index runs
  from 0 or 1 up to \<open>sz\<close> and is a \<open>nat\<close>.
\<close>

definition read_at :: "c_int list \<Rightarrow> nat \<Rightarrow> c_int outcome" where
  "read_at xs i = (if i < length xs then Inr (xs ! i) else Inl InvalidRead)"

function sum_loop :: "c_int list \<Rightarrow> c_int \<Rightarrow> nat \<Rightarrow> c_int \<Rightarrow> c_int outcome" where
  "sum_loop xs sz i acc =
     (if int i < sint sz
      then and_then (read_at xs i) (\<lambda>x.
             and_then (as_int (sint acc + sint x)) (\<lambda>acc'. sum_loop xs sz (i + 1) acc'))
      else Inr acc)"
  by pat_completeness auto
termination
  by (relation "measure (\<lambda>(xs, sz, i, acc). nat (sint sz) - i)") auto

definition mathlib_array_sum ::
  "c_int list option \<Rightarrow> c_int \<Rightarrow> lib_state \<Rightarrow> (c_int \<times> lib_state) outcome" where
  "mathlib_array_sum array sz s =
     and_then (count_call s) (\<lambda>s1.
       case array of
         None \<Rightarrow> Inr (0, s1)
       | Some xs \<Rightarrow>
           if sint sz \<le> 0 then Inr (0, s1)
           else and_then (sum_loop xs sz 0 0) (\<lambda>acc. Inr (acc, s1)))"

text \<open>
  \<^verbatim>\<open>return (double)mathlib_array_sum(array, size) / size;\<close>
  The sum comes from a call of the exported \<open>mathlib_array_sum\<close>, on the state this
  call has already counted itself in.
\<close>

definition mathlib_array_average ::
  "(c_int \<Rightarrow> 'd) \<Rightarrow> ('d \<Rightarrow> 'd \<Rightarrow> 'd) \<Rightarrow> 'd \<Rightarrow> c_int list option \<Rightarrow> c_int \<Rightarrow> lib_state \<Rightarrow>
     ('d \<times> lib_state) outcome" where
  "mathlib_array_average double_of_int double_div double_zero array sz s =
     and_then (count_call s) (\<lambda>s1.
       if array = None \<or> sint sz \<le> 0 then Inr (double_zero, s1)
       else and_then (mathlib_array_sum array sz s1) (\<lambda>(acc, s2).
              Inr (double_div (double_of_int acc) (double_of_int sz), s2)))"

function max_loop :: "c_int list \<Rightarrow> c_int \<Rightarrow> nat \<Rightarrow> c_int \<Rightarrow> c_int outcome" where
  "max_loop xs sz i largest =
     (if int i < sint sz
      then and_then (read_at xs i) (\<lambda>x.
             max_loop xs sz (i + 1) (if sint x > sint largest then x else largest))
      else Inr largest)"
  by pat_completeness auto
termination
  by (relation "measure (\<lambda>(xs, sz, i, largest). nat (sint sz) - i)") auto

definition mathlib_array_max ::
  "c_int list option \<Rightarrow> c_int \<Rightarrow> lib_state \<Rightarrow> (c_int \<times> lib_state) outcome" where
  "mathlib_array_max array sz s =
     and_then (count_call s) (\<lambda>s1.
       case array of
         None \<Rightarrow> Inr (word_of_int INT_MIN, s1)
       | Some xs \<Rightarrow>
           if sint sz \<le> 0 then Inr (word_of_int INT_MIN, s1)
           else and_then (read_at xs 0) (\<lambda>x0.
                  and_then (max_loop xs sz 1 x0) (\<lambda>largest. Inr (largest, s1))))"

function min_loop :: "c_int list \<Rightarrow> c_int \<Rightarrow> nat \<Rightarrow> c_int \<Rightarrow> c_int outcome" where
  "min_loop xs sz i smallest =
     (if int i < sint sz
      then and_then (read_at xs i) (\<lambda>x.
             min_loop xs sz (i + 1) (if sint x < sint smallest then x else smallest))
      else Inr smallest)"
  by pat_completeness auto
termination
  by (relation "measure (\<lambda>(xs, sz, i, smallest). nat (sint sz) - i)") auto

definition mathlib_array_min ::
  "c_int list option \<Rightarrow> c_int \<Rightarrow> lib_state \<Rightarrow> (c_int \<times> lib_state) outcome" where
  "mathlib_array_min array sz s =
     and_then (count_call s) (\<lambda>s1.
       case array of
         None \<Rightarrow> Inr (word_of_int INT_MAX, s1)
       | Some xs \<Rightarrow>
           if sint sz \<le> 0 then Inr (word_of_int INT_MAX, s1)
           else and_then (read_at xs 0) (\<lambda>x0.
                  and_then (min_loop xs sz 1 x0) (\<lambda>smallest. Inr (smallest, s1))))"

section \<open>Callback function\<close>

text \<open>
  \<^verbatim>\<open>typedef int (*mathlib_callback)(int);\<close> The callback is the caller's code: it runs
  on the library state it is called in, may call the library again, and may itself be
  undefined. \<open>None\<close> is the null function pointer.
\<close>

type_synonym mathlib_callback = "c_int \<Rightarrow> lib_state \<Rightarrow> (c_int \<times> lib_state) outcome"

definition mathlib_apply_operation ::
  "c_int \<Rightarrow> mathlib_callback option \<Rightarrow> lib_state \<Rightarrow> (c_int \<times> lib_state) outcome" where
  "mathlib_apply_operation val operation s =
     and_then (count_call s) (\<lambda>s1.
       case operation of
         None \<Rightarrow> Inr (val, s1)
       | Some f \<Rightarrow> f val s1)"

text \<open>
  The callback of \<^verbatim>\<open>test_mathlib.c\<close>: \<^verbatim>\<open>int square_callback(int x) { return x * x; }\<close>
\<close>

definition square_callback :: mathlib_callback where
  "square_callback x s = and_then (as_int (sint x * sint x)) (\<lambda>r. Inr (r, s))"

section \<open>Global state functions\<close>

definition mathlib_set_global_seed :: "c_uint \<Rightarrow> lib_state \<Rightarrow> (unit \<times> lib_state) outcome" where
  "mathlib_set_global_seed seed s =
     and_then (count_call s) (\<lambda>s1. Inr ((), s1\<lparr>g_random_seed := seed\<rparr>))"

definition mathlib_get_global_seed :: "lib_state \<Rightarrow> (c_uint \<times> lib_state) outcome" where
  "mathlib_get_global_seed s = and_then (count_call s) (\<lambda>s1. Inr (g_random_seed s1, s1))"

text \<open>
  Modelled from the spec: \<^verbatim>\<open>RAND_MAX\<close> comes from the platform's \<^verbatim>\<open>stdlib.h\<close>, which is
  not part of the sources; the specification pins it to \<open>2^31 - 1\<close>.
\<close>

definition RAND_MAX :: int where
  "RAND_MAX = 2147483647"

text \<open>
  \<^verbatim>\<open>g_random_seed = (g_random_seed * 1103515245 + 12345) & 0x7fffffff;\<close>
  \<^verbatim>\<open>return (int)(g_random_seed % RAND_MAX);\<close>
  The arithmetic is \<^verbatim>\<open>unsigned int\<close> arithmetic: the \<^verbatim>\<open>int\<close> constants are converted
  to \<^verbatim>\<open>unsigned int\<close>, and the operations wrap. The remainder is below \<open>2^31\<close>, so the
  conversion to \<^verbatim>\<open>int\<close> keeps its value.
\<close>

definition mathlib_random :: "lib_state \<Rightarrow> (c_int \<times> lib_state) outcome" where
  "mathlib_random s =
     and_then (count_call s) (\<lambda>s1.
       let seed = (g_random_seed s1 * 1103515245 + 12345) AND 0x7fffffff;
           s2 = s1\<lparr>g_random_seed := seed\<rparr>
       in Inr (g_random_seed s2 mod word_of_int RAND_MAX, s2))"

section \<open>Point distance calculation\<close>

text \<open>\<^verbatim>\<open>typedef struct { double x; double y; } MathPoint;\<close>\<close>

record 'd MathPoint =
  point_x :: 'd
  point_y :: 'd

text \<open>
  An argument \<^verbatim>\<open>const MathPoint*\<close> is \<open>None\<close> for the null pointer.
  \<^verbatim>\<open>if (!p1 || !p2) return -1.0;\<close>
  \<^verbatim>\<open>double dx = p2->x - p1->x; double dy = p2->y - p1->y; return sqrt(dx * dx + dy * dy);\<close>
\<close>

definition mathlib_point_distance ::
  "('d \<Rightarrow> 'd \<Rightarrow> 'd) \<Rightarrow> ('d \<Rightarrow> 'd \<Rightarrow> 'd) \<Rightarrow> ('d \<Rightarrow> 'd \<Rightarrow> 'd) \<Rightarrow> ('d \<Rightarrow> 'd) \<Rightarrow> 'd \<Rightarrow>
     'd MathPoint option \<Rightarrow> 'd MathPoint option \<Rightarrow> lib_state \<Rightarrow> ('d \<times> lib_state) outcome" where
  "mathlib_point_distance double_sub double_mul double_add double_sqrt double_minus_one p1 p2 s =
     and_then (count_call s) (\<lambda>s1.
       case (p1, p2) of
         (Some q1, Some q2) \<Rightarrow>
           let dx = double_sub (point_x q2) (point_x q1);
               dy = double_sub (point_y q2) (point_y q1)
           in Inr (double_sqrt (double_add (double_mul dx dx) (double_mul dy dy)), s1)
       | _ \<Rightarrow> Inr (double_minus_one, s1))"

section \<open>Hidden function\<close>

text \<open>The reader that the header does not declare: \<^verbatim>\<open>return g_call_count;\<close>\<close>

definition mathlib_get_call_count :: "lib_state \<Rightarrow> c_int \<times> lib_state" where
  "mathlib_get_call_count s = (g_call_count s, s)"

section \<open>Calls and sequences of calls\<close>

text \<open>
  One call of an exported function, with its arguments; the functions that compute with
  doubles carry the double operations they are run with. \<open>run_call\<close> makes the call and
  keeps the library state it leaves, \<open>run_calls\<close> makes a sequence of calls one after
  the other and stops at the first undefined one.
\<close>

datatype 'd call =
    Version
  | VersionMajor
  | VersionMinor
  | Add c_int c_int
  | Subtract c_int c_int
  | Multiply c_int c_int
  | Divide "'d \<Rightarrow> 'd \<Rightarrow> bool" "'d \<Rightarrow> 'd \<Rightarrow> 'd" 'd 'd 'd
  | Factorial c_int
  | Fibonacci c_int
  | Gcd c_int c_int
  | IsPrime c_int
  | ArraySum "c_int list option" c_int
  | ArrayAverage "c_int \<Rightarrow> 'd" "'d \<Rightarrow> 'd \<Rightarrow> 'd" 'd "c_int list option" c_int
  | ArrayMax "c_int list option" c_int
  | ArrayMin "c_int list option" c_int
  | ApplyOperation c_int "mathlib_callback option"
  | SetGlobalSeed c_uint
  | GetGlobalSeed
  | Random
  | PointDistance "'d \<Rightarrow> 'd \<Rightarrow> 'd" "'d \<Rightarrow> 'd \<Rightarrow> 'd" "'d \<Rightarrow> 'd \<Rightarrow> 'd" "'d \<Rightarrow> 'd" 'd
      "'d MathPoint option" "'d MathPoint option"

definition state_after :: "('r \<times> lib_state) outcome \<Rightarrow> lib_state outcome" where
  "state_after m = and_then m (\<lambda>(r, s'). Inr s')"

fun run_call :: "'d call \<Rightarrow> lib_state \<Rightarrow> lib_state outcome" where
  "run_call Version s = state_after (mathlib_version s)"
| "run_call VersionMajor s = Inr (snd (mathlib_version_major s))"
| "run_call VersionMinor s = Inr (snd (mathlib_version_minor s))"
| "run_call (Add a b) s = state_after (mathlib_add a b s)"
| "run_call (Subtract a b) s = state_after (mathlib_subtract a b s)"
| "run_call (Multiply a b) s = state_after (mathlib_multiply a b s)"
| "run_call (Divide double_eq double_div double_zero a b) s =
     state_after (mathlib_divide double_eq double_div double_zero a b s)"
| "run_call (Factorial n) s = state_after (mathlib_factorial n s)"
| "run_call (Fibonacci n) s = state_after (mathlib_fibonacci n s)"
| "run_call (Gcd a b) s = state_after (mathlib_gcd a b s)"
| "run_call (IsPrime n) s = state_after (mathlib_is_prime n s)"
| "run_call (ArraySum array sz) s = state_after (mathlib_array_sum array sz s)"
| "run_call (ArrayAverage double_of_int double_div double_zero array sz) s =
     state_after (mathlib_array_average double_of_int double_div double_zero array sz s)"
| "run_call (ArrayMax array sz) s = state_after (mathlib_array_max array sz s)"
| "run_call (ArrayMin array sz) s = state_after (mathlib_array_min array sz s)"
| "run_call (ApplyOperation val operation) s = state_after (mathlib_apply_operation val operation s)"
| "run_call (SetGlobalSeed seed) s = state_after (mathlib_set_global_seed seed s)"
| "run_call GetGlobalSeed s = state_after (mathlib_get_global_seed s)"
| "run_call Random s = state_after (mathlib_random s)"
| "run_call (PointDistance double_sub double_mul double_add double_sqrt double_minus_one p1 p2) s =
     state_after
       (mathlib_point_distance double_sub double_mul double_add double_sqrt double_minus_one p1 p2 s)"

fun run_calls :: "'d call list \<Rightarrow> lib_state \<Rightarrow> lib_state outcome" where
  "run_calls [] s = Inr s"
| "run_calls (c # cs) s = and_then (run_call c s) (run_calls cs)"

text \<open>\<open>k\<close> calls of \<open>mathlib_random\<close> in a row, and their results in order.\<close>

fun random_sequence :: "nat \<Rightarrow> lib_state \<Rightarrow> (c_int list \<times> lib_state) outcome" where
  "random_sequence 0 s = Inr ([], s)"
| "random_sequence (Suc k) s =
     and_then (mathlib_random s) (\<lambda>(r, s1).
       and_then (random_sequence k s1) (\<lambda>(rs, s2). Inr (r # rs, s2)))"

text \<open>
  By how much a call that returns moves the call counter: not at all for the two
  version numbers, by two for the average of a present array of positive size (its own
  increment and that of the \<open>mathlib_array_sum\<close> it calls), by one otherwise.
\<close>

fun increments :: "'d call \<Rightarrow> int" where
  "increments VersionMajor = 0"
| "increments VersionMinor = 0"
| "increments (ArrayAverage double_of_int double_div double_zero array sz) =
     (if array = None \<or> sint sz \<le> 0 then 1 else 2)"
| "increments c = 1"

text \<open>
  A callback passed to \<open>mathlib_apply_operation\<close> that leaves the call counter as it
  finds it (one that does not call the library again, for instance).
\<close>

fun callback_keeps_count :: "'d call \<Rightarrow> bool" where
  "callback_keeps_count (ApplyOperation val (Some f)) =
     (\<forall>v s r s'. f v s = Inr (r, s') \<longrightarrow> g_call_count s' = g_call_count s)"
| "callback_keeps_count c = True"

section \<open>IEEE 754 binary64 division of integers\<close>

text \<open>
  Where a statement needs the value of \<^verbatim>\<open>(double)sum / size\<close>, the double operations
  are these. A finite double is the rational number it denotes. The conversion of an
  \<^verbatim>\<open>int\<close> is exact (32 bits fit the 53-bit significand). The quotient is the exact
  quotient rounded to the nearest number with a 53-bit significand, ties to the even
  significand; quotients of two \<^verbatim>\<open>int\<close> values, the divisor not 0, are 0 or have a
  magnitude between \<open>2^-31\<close> and \<open>2^31\<close>, so neither subnormal numbers nor infinities
  occur.
\<close>

fun bit_length :: "nat \<Rightarrow> nat" where
  "bit_length n = (if n = 0 then 0 else Suc (bit_length (n div 2)))"

definition pow2 :: "int \<Rightarrow> rat" where
  "pow2 e = (if 0 \<le> e then 2 ^ nat e else 1 / 2 ^ nat (- e))"

text \<open>The exponent \<open>k\<close> with \<open>2^k \<le> x < 2^(k+1)\<close>, for \<open>x > 0\<close>.\<close>

definition binade :: "rat \<Rightarrow> int" where
  "binade x =
     (if 1 \<le> x then int (bit_length (nat \<lfloor>x\<rfloor>)) - 1
      else - int (bit_length (nat (\<lceil>1 / x\<rceil> - 1))))"

definition round_half_even :: "rat \<Rightarrow> int" where
  "round_half_even r =
     (let f = \<lfloor>r\<rfloor>; d = r - of_int f
      in if d < 1 / 2 then f
         else if 1 / 2 < d then f + 1
         else if even f then f else f + 1)"

definition binary64_round :: "rat \<Rightarrow> rat" where
  "binary64_round x =
     (if x = 0 then 0
      else let e = binade \<bar>x\<bar> - 52
           in of_int (round_half_even (x / pow2 e)) * pow2 e)"

definition binary64_of_int :: "c_int \<Rightarrow> rat" where
  "binary64_of_int w = of_int (sint w)"

definition binary64_div :: "rat \<Rightarrow> rat \<Rightarrow> rat" where
  "binary64_div a b = binary64_round (a / b)"

section \<open>Vocabulary of the statements\<close>

text \<open>A mathematical integer that an \<^verbatim>\<open>int\<close> can hold.\<close>

definition representable :: "int \<Rightarrow> bool" where
  "representable v \<longleftrightarrow> INT_MIN \<le> v \<and> v \<le> INT_MAX"

text \<open>The state after one \<^verbatim>\<open>g_call_count++\<close> that did not overflow.\<close>

definition counted :: "lib_state \<Rightarrow> lib_state" where
  "counted s = s\<lparr>g_call_count := g_call_count s + 1\<rparr>"

text \<open>The generator's step on unsigned numbers, as the specification writes it.\<close>

definition lcg_next :: "nat \<Rightarrow> nat" where
  "lcg_next x = (x * 1103515245 + 12345) mod 2 ^ 31"

text \<open>The first \<open>k\<close> results the generator gives from a seed, as numbers.\<close>

fun lcg_outputs :: "nat \<Rightarrow> nat \<Rightarrow> nat list" where
  "lcg_outputs 0 seed = []"
| "lcg_outputs (Suc k) seed = lcg_next seed mod 2147483647 # lcg_outputs k (lcg_next seed)"

text \<open>A prime number, among the integers.\<close>

definition prime_int :: "int \<Rightarrow> bool" where
  "prime_int n \<longleftrightarrow> 1 < n \<and> (\<forall>d\<in>{2..n - 1}. \<not> d dvd n)"

section \<open>Basic facts\<close>

text \<open>The loop equations are unfolded on demand only.\<close>

declare bit_length.simps [simp del]
declare factorial_loop.simps [simp del]
declare fibonacci_loop.simps [simp del]
declare gcd_loop.simps [simp del]
declare is_prime_loop.simps [simp del]
declare sum_loop.simps [simp del]
declare max_loop.simps [simp del]
declare min_loop.simps [simp del]

lemma and_then_Inr [simp]: "and_then (Inr x) f = f x"
  by (simp add: and_then_def)

lemma and_then_Inl [simp]: "and_then (Inl u) f = Inl u"
  by (simp add: and_then_def)

lemma sint_int_bounds: "- 2147483648 \<le> sint (a :: c_int) \<and> sint a \<le> 2147483647"
  using sint_ge [of a] sint_lt [of a] by simp

lemma sint_as_int_value:
  "- 2147483648 \<le> v \<Longrightarrow> v \<le> 2147483647 \<Longrightarrow> sint (word_of_int v :: c_int) = v"
  by (simp add: sint_sbintrunc' signed_take_bit_int_eq_self)

lemma count_call_ok:
  "sint (g_call_count s) < INT_MAX \<Longrightarrow>
     count_call s = Inr (counted s)"
  using sint_int_bounds [of "g_call_count s"]
  by (simp add: count_call_def counted_def as_int_def INT_MAX_def INT_MIN_def)

lemma count_call_overflow:
  "sint (g_call_count s) = INT_MAX \<Longrightarrow> count_call s = Inl SignedOverflow"
  by (simp add: count_call_def as_int_def INT_MAX_def INT_MIN_def)

lemma sint_count_succ:
  "sint (c :: c_int) < INT_MAX \<Longrightarrow> sint (c + 1) = sint c + 1"
proof -
  assume lt: "sint c < INT_MAX"
  have "c + 1 = word_of_int (sint c + 1)"
    by simp
  moreover have "sint (word_of_int (sint c + 1) :: c_int) = sint c + 1"
    using lt sint_int_bounds [of c] by (intro sint_as_int_value) (simp_all add: INT_MAX_def)
  ultimately show ?thesis by simp
qed

lemma sint_counted:
  "sint (g_call_count s) < INT_MAX \<Longrightarrow> sint (g_call_count (counted s)) = sint (g_call_count s) + 1"
  by (simp add: counted_def sint_count_succ)

lemma seed_counted [simp]: "g_random_seed (counted s) = g_random_seed s"
  by (simp add: counted_def)

section \<open>Addition and subtraction\<close>

lemma mathlib_add_value:
  assumes "sint (g_call_count s) < INT_MAX"
  shows "mathlib_add a b s =
     Inr (if representable (sint a + sint b) then word_of_int (sint a + sint b) else 0, counted s)"
  using sint_int_bounds [of a] sint_int_bounds [of b]
  by (auto simp add: mathlib_add_def count_call_ok [OF assms] as_int_def representable_def
      INT_MAX_def INT_MIN_def)

lemma mathlib_subtract_value:
  assumes "sint (g_call_count s) < INT_MAX"
  shows "mathlib_subtract a b s =
     Inr (if representable (sint a - sint b) then word_of_int (sint a - sint b) else 0, counted s)"
  using sint_int_bounds [of a] sint_int_bounds [of b]
  by (auto simp add: mathlib_subtract_def count_call_ok [OF assms] as_int_def representable_def
      INT_MAX_def INT_MIN_def)

lemma sint_representable:
  "representable v \<Longrightarrow> sint (word_of_int v :: c_int) = v"
  by (simp add: representable_def INT_MAX_def INT_MIN_def sint_as_int_value)

lemma sint_add_representable:
  fixes a b :: c_int
  assumes "representable (sint a + sint b)"
  shows "sint (a + b) = sint a + sint b"
proof -
  have "a + b = word_of_int (sint a + sint b)" by simp
  then show ?thesis using sint_representable [OF assms] by (simp only:)
qed

lemma sint_diff_representable:
  fixes a b :: c_int
  assumes "representable (sint a - sint b)"
  shows "sint (a - b) = sint a - sint b"
proof -
  have "a - b = word_of_int (sint a - sint b)" by simp
  then show ?thesis using sint_representable [OF assms] by (simp only:)
qed

lemma sint_mult_representable:
  fixes a b :: c_int
  assumes "representable (sint a * sint b)"
  shows "sint (a * b) = sint a * sint b"
proof -
  have "a * b = word_of_int (sint a * sint b)" by simp
  then show ?thesis using sint_representable [OF assms] by (simp only:)
qed

text \<open>
  C5. In a state whose call counter can still be incremented, \<open>mathlib_add a b\<close> returns
  the \<^verbatim>\<open>int\<close> whose value is \<open>a + b\<close> when that sum is representable in signed 32
  bits, and 0 when it is not; \<open>mathlib_subtract a b\<close> does the same for \<open>a - b\<close>. No
  run ends in a signed overflow of the sum or difference: the check comes before the
  arithmetic. In particular \<open>add(INT_MAX, 1) = 0\<close> and \<open>add(2, 3) = 5\<close>.
\<close>

theorem add_subtract_overflow_checked:
  assumes "sint (g_call_count s) < INT_MAX"
  shows "(representable (sint a + sint b) \<longrightarrow>
            (\<exists>r. mathlib_add a b s = Inr (r, counted s) \<and> sint r = sint a + sint b)) \<and>
         (\<not> representable (sint a + sint b) \<longrightarrow> mathlib_add a b s = Inr (0, counted s)) \<and>
         (representable (sint a - sint b) \<longrightarrow>
            (\<exists>r. mathlib_subtract a b s = Inr (r, counted s) \<and> sint r = sint a - sint b)) \<and>
         (\<not> representable (sint a - sint b) \<longrightarrow> mathlib_subtract a b s = Inr (0, counted s)) \<and>
         mathlib_add 2147483647 1 s = Inr (0, counted s) \<and>
         mathlib_add 2 3 s = Inr (5, counted s)"
proof -
  have "mathlib_add 2147483647 1 s = Inr (0, counted s)"
    by (simp add: mathlib_add_value [OF assms] representable_def INT_MAX_def INT_MIN_def)
  moreover have "mathlib_add 2 3 s = Inr (5, counted s)"
    by (simp add: mathlib_add_value [OF assms] representable_def INT_MAX_def INT_MIN_def)
  ultimately show ?thesis
    by (simp add: mathlib_add_value [OF assms] mathlib_subtract_value [OF assms]
        sint_add_representable sint_diff_representable)
qed

theorem add_subtract_overflow_checked_witness:
  "sint (g_call_count mathlib_init) < INT_MAX \<and>
   representable (sint (2 :: c_int) + sint (3 :: c_int)) \<and>
   (\<exists>r. mathlib_add 2 3 mathlib_init = Inr (r, counted mathlib_init) \<and> sint r = 5) \<and>
   representable (sint (2 :: c_int) - sint (3 :: c_int)) \<and>
   (\<exists>r. mathlib_subtract 2 3 mathlib_init = Inr (r, counted mathlib_init) \<and> sint r = - 1) \<and>
   \<not> representable (sint (2147483647 :: c_int) + sint (1 :: c_int)) \<and>
   mathlib_add 2147483647 1 mathlib_init = Inr (0, counted mathlib_init) \<and>
   \<not> representable (sint (- 2147483648 :: c_int) - sint (1 :: c_int)) \<and>
   mathlib_subtract (- 2147483648) 1 mathlib_init = Inr (0, counted mathlib_init)"
proof -
  have c: "sint (g_call_count mathlib_init) < INT_MAX"
    by (simp add: mathlib_init_def INT_MAX_def)
  show ?thesis
    using c add_subtract_overflow_checked [OF c, of 2 3]
      add_subtract_overflow_checked [OF c, of "- 2147483648" 1]
    by (simp add: representable_def INT_MAX_def INT_MIN_def)
qed

section \<open>Multiplication\<close>

lemma div_less_iff_int:
  assumes "0 < (x::int)"
  shows "(m div x < y) = (m < x * y)"
proof
  assume "m div x < y"
  then have "m div x + 1 \<le> y" by simp
  then have "x * (m div x + 1) \<le> x * y"
    using assms by (simp only: mult_le_cancel_left_pos)
  then have "x * (m div x) + x \<le> x * y" by (simp add: algebra_simps)
  moreover have "x * (m div x) + m mod x = m" by simp
  moreover have "m mod x < x" using assms by simp
  ultimately show "m < x * y" by linarith
next
  assume lt: "m < x * y"
  show "m div x < y"
  proof (rule ccontr)
    assume "\<not> m div x < y"
    then have "y \<le> m div x" by simp
    then have "x * y \<le> x * (m div x)"
      using assms by (simp only: mult_le_cancel_left_pos)
    moreover have "x * (m div x) + m mod x = m" by simp
    moreover have "0 \<le> m mod x" using assms by simp
    ultimately show False using lt by linarith
  qed
qed

lemma sdiv_nonneg: "0 \<le> (m::int) \<Longrightarrow> 0 < x \<Longrightarrow> m sdiv x = m div x"
  by (cases "m = 0") (simp_all add: signed_divide_int_def)

lemma magnitude_check:
  assumes "0 < (x::int)" "0 \<le> y"
  shows "(2147483647 sdiv x < y) = (2147483647 < x * y)"
  using assms by (simp add: sdiv_nonneg div_less_iff_int)

lemma mathlib_multiply_value:
  assumes cnt: "sint (g_call_count s) < INT_MAX"
    and dom: "a = 0 \<or> (sint a \<noteq> INT_MIN \<and> sint b \<noteq> INT_MIN)"
  shows "mathlib_multiply a b s =
     Inr (if \<bar>sint a * sint b\<bar> \<le> INT_MAX then word_of_int (sint a * sint b) else 0, counted s)"
proof (cases "a = 0")
  case True
  then show ?thesis
    by (simp add: mathlib_multiply_def count_call_ok [OF cnt] as_int_def INT_MAX_def INT_MIN_def)
next
  case False
  then have a0: "sint a \<noteq> 0" by (simp add: signed_eq_0_iff)
  from False dom have na: "sint a \<noteq> INT_MIN" and nb: "sint b \<noteq> INT_MIN" by simp_all
  have ra: "- 2147483648 \<le> \<bar>sint a\<bar> \<and> \<bar>sint a\<bar> \<le> 2147483647"
    using na sint_int_bounds [of a] unfolding INT_MIN_def by linarith
  have rb: "- 2147483648 \<le> \<bar>sint b\<bar> \<and> \<bar>sint b\<bar> \<le> 2147483647"
    using nb sint_int_bounds [of b] unfolding INT_MIN_def by linarith
  have absa: "c_abs a = Inr (word_of_int \<bar>sint a\<bar>)"
    and absb: "c_abs b = Inr (word_of_int \<bar>sint b\<bar>)"
    using ra rb by (simp_all add: c_abs_def as_int_def INT_MAX_def INT_MIN_def)
  have va: "sint (word_of_int \<bar>sint a\<bar> :: c_int) = \<bar>sint a\<bar>"
    and vb: "sint (word_of_int \<bar>sint b\<bar> :: c_int) = \<bar>sint b\<bar>"
    using ra rb by (simp_all add: sint_as_int_value)
  have chk: "(2147483647 sdiv \<bar>sint a\<bar> < \<bar>sint b\<bar>) = (2147483647 < \<bar>sint a * sint b\<bar>)"
    using a0 by (simp add: magnitude_check abs_mult)
  show ?thesis
    using False
    by (auto simp add: mathlib_multiply_def count_call_ok [OF cnt] absa absb va vb chk as_int_def
        INT_MAX_def INT_MIN_def)
qed

text \<open>
  C2, as stated, fails: the product \<open>-2 * 1073741824 = INT_MIN\<close> is representable, and
  \<open>mathlib_multiply\<close> returns the sentinel 0 for it.
\<close>

theorem multiply_int_min_product_counterexample:
  "mathlib_multiply (- 2) 1073741824 mathlib_init = Inr (0, counted mathlib_init) \<and>
   representable (sint (- 2 :: c_int) * sint (1073741824 :: c_int)) \<and>
   sint (- 2 :: c_int) * sint (1073741824 :: c_int) \<noteq> sint (0 :: c_int)"
  by (simp add: mathlib_multiply_def mathlib_init_def counted_def count_call_def c_abs_def
      as_int_def representable_def INT_MAX_def INT_MIN_def)

text \<open>
  C2, amended. In a state whose call counter can still be incremented, and for operands on
  which \<^verbatim>\<open>abs\<close> is defined (\<open>a = 0\<close>, or neither operand is \<open>INT_MIN\<close>),
  \<open>mathlib_multiply a b\<close> returns the \<^verbatim>\<open>int\<close> whose value is \<open>a * b\<close> when the
  magnitude of the product is at most \<open>INT_MAX\<close>, and the sentinel 0 when the magnitude
  exceeds \<open>INT_MAX\<close>: the comparison \<open>abs(b) > INT_MAX / abs(a)\<close> decides exactly
  \<open>|a * b| > INT_MAX\<close>, before the multiplication, so the representable product
  \<open>INT_MIN\<close> is reported as 0 too.
\<close>

theorem multiply_magnitude_checked:
  assumes "sint (g_call_count s) < INT_MAX"
    and "a = 0 \<or> (sint a \<noteq> INT_MIN \<and> sint b \<noteq> INT_MIN)"
  shows "(\<bar>sint a * sint b\<bar> \<le> INT_MAX \<longrightarrow>
            (\<exists>r. mathlib_multiply a b s = Inr (r, counted s) \<and> sint r = sint a * sint b)) \<and>
         (\<bar>sint a * sint b\<bar> > INT_MAX \<longrightarrow> mathlib_multiply a b s = Inr (0, counted s))"
proof -
  have "\<bar>sint a * sint b\<bar> \<le> INT_MAX \<Longrightarrow> representable (sint a * sint b)"
    unfolding representable_def INT_MAX_def INT_MIN_def by linarith
  then show ?thesis
    by (auto simp add: mathlib_multiply_value [OF assms] sint_mult_representable)
qed

theorem multiply_magnitude_checked_witness:
  "sint (g_call_count mathlib_init) < INT_MAX \<and>
   sint (- 3 :: c_int) \<noteq> INT_MIN \<and> sint (5 :: c_int) \<noteq> INT_MIN \<and>
   \<bar>sint (- 3 :: c_int) * sint (5 :: c_int)\<bar> \<le> INT_MAX \<and>
   (\<exists>r. mathlib_multiply (- 3) 5 mathlib_init = Inr (r, counted mathlib_init) \<and> sint r = - 15) \<and>
   \<bar>sint (65536 :: c_int) * sint (- 65536 :: c_int)\<bar> > INT_MAX \<and>
   mathlib_multiply 65536 (- 65536) mathlib_init = Inr (0, counted mathlib_init)"
proof -
  have c: "sint (g_call_count mathlib_init) < INT_MAX"
    by (simp add: mathlib_init_def INT_MAX_def)
  have d1: "(- 3 :: c_int) = 0 \<or> (sint (- 3 :: c_int) \<noteq> INT_MIN \<and> sint (5 :: c_int) \<noteq> INT_MIN)"
    by (simp add: INT_MIN_def)
  have d2: "(65536 :: c_int) = 0 \<or>
      (sint (65536 :: c_int) \<noteq> INT_MIN \<and> sint (- 65536 :: c_int) \<noteq> INT_MIN)"
    by (simp add: INT_MIN_def)
  show ?thesis
    using c multiply_magnitude_checked [OF c d1] multiply_magnitude_checked [OF c d2]
    by (simp add: INT_MAX_def INT_MIN_def)
qed

section \<open>Seed and call-count accessors\<close>

text \<open>
  C9. With room for two more counted calls, \<open>mathlib_set_global_seed v\<close> overwrites the
  seed field with \<open>v\<close> and changes nothing else but the call counter, and the
  \<open>mathlib_get_global_seed\<close> that follows returns exactly \<open>v\<close>; in any state that can
  count the call, \<open>mathlib_get_global_seed\<close> returns the seed field. In particular
  \<open>set_seed(42); get_seed() = 42\<close>.
\<close>

theorem set_seed_then_get_seed:
  assumes "sint (g_call_count s) < INT_MAX - 1"
  shows "mathlib_set_global_seed v s = Inr ((), (counted s)\<lparr>g_random_seed := v\<rparr>) \<and>
         mathlib_get_global_seed s = Inr (g_random_seed s, counted s) \<and>
         and_then (mathlib_set_global_seed v s) (\<lambda>(u, s1). mathlib_get_global_seed s1) =
           Inr (v, counted ((counted s)\<lparr>g_random_seed := v\<rparr>)) \<and>
         and_then (mathlib_set_global_seed 42 s) (\<lambda>(u, s1). mathlib_get_global_seed s1) =
           Inr (42, counted ((counted s)\<lparr>g_random_seed := 42\<rparr>))"
proof -
  from assms have c1: "sint (g_call_count s) < INT_MAX" by simp
  have c2: "sint (g_call_count ((counted s)\<lparr>g_random_seed := w\<rparr>)) < INT_MAX" for w
    using assms sint_counted [OF c1] by (simp add: counted_def)
  show ?thesis
    by (simp add: mathlib_set_global_seed_def mathlib_get_global_seed_def count_call_ok [OF c1]
        count_call_ok [OF c2])
qed

theorem set_seed_then_get_seed_witness:
  "sint (g_call_count mathlib_init) < INT_MAX - 1 \<and>
   and_then (mathlib_set_global_seed 42 mathlib_init) (\<lambda>(u, s1). mathlib_get_global_seed s1) =
     Inr (42, \<lparr>g_random_seed = 42, g_call_count = 2\<rparr>)"
proof -
  have c: "sint (g_call_count mathlib_init) < INT_MAX - 1"
    by (simp add: mathlib_init_def INT_MAX_def)
  from set_seed_then_get_seed [OF c, of 42]
  have "and_then (mathlib_set_global_seed 42 mathlib_init) (\<lambda>(u, s1). mathlib_get_global_seed s1) =
      Inr (42, counted ((counted mathlib_init)\<lparr>g_random_seed := 42\<rparr>))"
    by (elim conjE)
  with c show ?thesis
    by (simp add: counted_def mathlib_init_def)
qed

text \<open>
  C10. \<open>mathlib_get_call_count\<close> returns the current call counter and leaves the whole
  library state (counter and seed) as it found it, so any number of consecutive calls
  return the same value.
\<close>

theorem get_call_count_reads_only:
  "mathlib_get_call_count s = (g_call_count s, s) \<and>
   (\<forall>n. ((snd \<circ> mathlib_get_call_count) ^^ n) s = s \<and>
        fst (mathlib_get_call_count (((snd \<circ> mathlib_get_call_count) ^^ n) s)) = g_call_count s)"
proof -
  have "((snd \<circ> mathlib_get_call_count) ^^ n) s = s" for n
    by (induction n) (simp_all add: mathlib_get_call_count_def)
  then show ?thesis
    by (simp add: mathlib_get_call_count_def)
qed

section \<open>Array maximum and minimum\<close>

lemma max_loop_fold:
  "sint sz \<le> int (length xs) \<Longrightarrow>
   \<exists>r. max_loop xs sz i m = Inr r \<and>
       sint r = fold max (map sint (drop i (take (nat (sint sz)) xs))) (sint m)"
proof (induction xs sz i m rule: max_loop.induct)
  case (1 xs sz i m)
  let ?ys = "take (nat (sint sz)) xs"
  show ?case
  proof (cases "int i < sint sz")
    case True
    with "1.prems" have i: "i < length xs" and iy: "i < length ?ys" by auto
    let ?m' = "if sint (xs ! i) > sint m then xs ! i else m"
    from "1.IH" [OF True, of "xs ! i"] i "1.prems"
    obtain r where r: "max_loop xs sz (i + 1) ?m' = Inr r"
      and v: "sint r = fold max (map sint (drop (i + 1) ?ys)) (sint ?m')"
      by (auto simp add: read_at_def)
    have d: "drop i ?ys = xs ! i # drop (i + 1) ?ys"
      using iy by (simp add: Cons_nth_drop_Suc [symmetric])
    have "sint ?m' = max (sint (xs ! i)) (sint m)" by simp
    with v have "sint r = fold max (map sint (drop i ?ys)) (sint m)"
      by (simp only: d list.map fold_simps)
    moreover have "max_loop xs sz i m = Inr r"
      using True i r by (subst max_loop.simps) (simp add: read_at_def)
    ultimately show ?thesis by blast
  next
    case False
    then show ?thesis
      by (subst max_loop.simps) simp
  qed
qed

lemma min_loop_fold:
  "sint sz \<le> int (length xs) \<Longrightarrow>
   \<exists>r. min_loop xs sz i m = Inr r \<and>
       sint r = fold min (map sint (drop i (take (nat (sint sz)) xs))) (sint m)"
proof (induction xs sz i m rule: min_loop.induct)
  case (1 xs sz i m)
  let ?ys = "take (nat (sint sz)) xs"
  show ?case
  proof (cases "int i < sint sz")
    case True
    with "1.prems" have i: "i < length xs" and iy: "i < length ?ys" by auto
    let ?m' = "if sint (xs ! i) < sint m then xs ! i else m"
    from "1.IH" [OF True, of "xs ! i"] i "1.prems"
    obtain r where r: "min_loop xs sz (i + 1) ?m' = Inr r"
      and v: "sint r = fold min (map sint (drop (i + 1) ?ys)) (sint ?m')"
      by (auto simp add: read_at_def)
    have d: "drop i ?ys = xs ! i # drop (i + 1) ?ys"
      using iy by (simp add: Cons_nth_drop_Suc [symmetric])
    have "sint ?m' = min (sint (xs ! i)) (sint m)" by simp
    with v have "sint r = fold min (map sint (drop i ?ys)) (sint m)"
      by (simp only: d list.map fold_simps)
    moreover have "min_loop xs sz i m = Inr r"
      using True i r by (subst min_loop.simps) (simp add: read_at_def)
    ultimately show ?thesis by blast
  next
    case False
    then show ?thesis
      by (subst min_loop.simps) simp
  qed
qed

lemma take_head:
  assumes "0 < n" "n \<le> length xs"
  shows "sint ` set (take n xs) = set (sint (xs ! 0) # map sint (drop 1 (take n xs)))"
proof -
  from assms have "take n xs = xs ! 0 # drop 1 (take n xs)"
    by (cases xs; cases n) simp_all
  then show ?thesis
    by (metis list.set_map list.simps(9))
qed

lemma Max_take_fold:
  assumes "0 < n" "n \<le> length xs"
  shows "fold max (map sint (drop 1 (take n xs))) (sint (xs ! 0)) = Max (sint ` set (take n xs))"
  by (simp only: take_head [OF assms] Max.set_eq_fold)

lemma Min_take_fold:
  assumes "0 < n" "n \<le> length xs"
  shows "fold min (map sint (drop 1 (take n xs))) (sint (xs ! 0)) = Min (sint ` set (take n xs))"
  by (simp only: take_head [OF assms] Min.set_eq_fold)

lemma sint_INT_MIN: "sint (word_of_int INT_MIN :: c_int) = INT_MIN"
  by (simp add: INT_MIN_def)

lemma sint_INT_MAX: "sint (word_of_int INT_MAX :: c_int) = INT_MAX"
  by (simp add: INT_MAX_def)

lemma mathlib_array_max_absent:
  assumes "sint (g_call_count s) < INT_MAX" and "array = None \<or> sint sz \<le> 0"
  shows "mathlib_array_max array sz s = Inr (word_of_int INT_MIN, counted s)"
  using assms(2) by (auto simp add: mathlib_array_max_def count_call_ok [OF assms(1)] split: option.splits)

lemma mathlib_array_min_absent:
  assumes "sint (g_call_count s) < INT_MAX" and "array = None \<or> sint sz \<le> 0"
  shows "mathlib_array_min array sz s = Inr (word_of_int INT_MAX, counted s)"
  using assms(2) by (auto simp add: mathlib_array_min_def count_call_ok [OF assms(1)] split: option.splits)

lemma mathlib_array_max_present:
  assumes cnt: "sint (g_call_count s) < INT_MAX"
    and sz: "0 < sint sz" "sint sz \<le> int (length xs)"
  shows "\<exists>r. mathlib_array_max (Some xs) sz s = Inr (r, counted s) \<and>
             sint r = Max (sint ` set (take (nat (sint sz)) xs))"
proof -
  from sz have n: "0 < nat (sint sz)" "nat (sint sz) \<le> length xs" by simp_all
  from max_loop_fold [OF sz(2), of 1 "xs ! 0"] obtain r
    where r: "max_loop xs sz 1 (xs ! 0) = Inr r"
      and "sint r = fold max (map sint (drop 1 (take (nat (sint sz)) xs))) (sint (xs ! 0))"
    by blast
  then have v: "sint r = Max (sint ` set (take (nat (sint sz)) xs))"
    by (simp only: Max_take_fold [OF n])
  from n have "read_at xs 0 = Inr (xs ! 0)"
    by (cases xs) (simp_all add: read_at_def)
  with sz r have "mathlib_array_max (Some xs) sz s = Inr (r, counted s)"
    by (simp add: mathlib_array_max_def count_call_ok [OF cnt])
  with v show ?thesis by blast
qed

lemma mathlib_array_min_present:
  assumes cnt: "sint (g_call_count s) < INT_MAX"
    and sz: "0 < sint sz" "sint sz \<le> int (length xs)"
  shows "\<exists>r. mathlib_array_min (Some xs) sz s = Inr (r, counted s) \<and>
             sint r = Min (sint ` set (take (nat (sint sz)) xs))"
proof -
  from sz have n: "0 < nat (sint sz)" "nat (sint sz) \<le> length xs" by simp_all
  from min_loop_fold [OF sz(2), of 1 "xs ! 0"] obtain r
    where r: "min_loop xs sz 1 (xs ! 0) = Inr r"
      and "sint r = fold min (map sint (drop 1 (take (nat (sint sz)) xs))) (sint (xs ! 0))"
    by blast
  then have v: "sint r = Min (sint ` set (take (nat (sint sz)) xs))"
    by (simp only: Min_take_fold [OF n])
  from n have "read_at xs 0 = Inr (xs ! 0)"
    by (cases xs) (simp_all add: read_at_def)
  with sz r have "mathlib_array_min (Some xs) sz s = Inr (r, counted s)"
    by (simp add: mathlib_array_min_def count_call_ok [OF cnt])
  with v show ?thesis by blast
qed

text \<open>
  C3, as stated, fails: for an absent array \<open>mathlib_array_max\<close> returns \<open>INT_MIN\<close>,
  not the maximum representable value, and \<open>mathlib_array_min\<close> returns \<open>INT_MAX\<close>,
  not the minimum one.
\<close>

theorem array_max_min_counterexample:
  "mathlib_array_max None 0 mathlib_init = Inr (word_of_int INT_MIN, counted mathlib_init) \<and>
   sint (word_of_int INT_MIN :: c_int) \<noteq> INT_MAX \<and>
   mathlib_array_min None 0 mathlib_init = Inr (word_of_int INT_MAX, counted mathlib_init) \<and>
   sint (word_of_int INT_MAX :: c_int) \<noteq> INT_MIN"
  by (simp add: mathlib_array_max_def mathlib_array_min_def mathlib_init_def counted_def
      count_call_def as_int_def INT_MAX_def INT_MIN_def)

text \<open>
  C3, amended. In a state whose call counter can still be incremented: when the array is
  absent (null pointer) or \<open>sz\<close> is not positive, \<open>mathlib_array_max\<close> returns
  \<open>INT_MIN\<close> and \<open>mathlib_array_min\<close> returns \<open>INT_MAX\<close>; when the pointer is to at
  least \<open>sz > 0\<close> elements, they return the largest and the smallest of the first
  \<open>sz\<close> elements, as signed values.
\<close>

theorem array_max_min:
  assumes "sint (g_call_count s) < INT_MAX"
  shows "(array = None \<or> sint sz \<le> 0 \<longrightarrow>
            (\<exists>r. mathlib_array_max array sz s = Inr (r, counted s) \<and> sint r = INT_MIN) \<and>
            (\<exists>r. mathlib_array_min array sz s = Inr (r, counted s) \<and> sint r = INT_MAX)) \<and>
         (0 < sint sz \<and> sint sz \<le> int (length xs) \<longrightarrow>
            (\<exists>r. mathlib_array_max (Some xs) sz s = Inr (r, counted s) \<and>
                 sint r = Max (sint ` set (take (nat (sint sz)) xs))) \<and>
            (\<exists>r. mathlib_array_min (Some xs) sz s = Inr (r, counted s) \<and>
                 sint r = Min (sint ` set (take (nat (sint sz)) xs))))"
  using mathlib_array_max_absent [OF assms] mathlib_array_min_absent [OF assms]
    mathlib_array_max_present [OF assms] mathlib_array_min_present [OF assms]
  by (simp add: sint_INT_MIN sint_INT_MAX)

theorem array_max_min_witness:
  "sint (g_call_count mathlib_init) < INT_MAX \<and>
   0 < sint (3 :: c_int) \<and> sint (3 :: c_int) \<le> int (length [4, - 7, 9 :: c_int]) \<and>
   (\<exists>r. mathlib_array_max (Some [4, - 7, 9]) 3 mathlib_init = Inr (r, counted mathlib_init) \<and>
        sint r = 9) \<and>
   (\<exists>r. mathlib_array_min (Some [4, - 7, 9]) 3 mathlib_init = Inr (r, counted mathlib_init) \<and>
        sint r = - 7) \<and>
   (\<exists>r. mathlib_array_max None 3 mathlib_init = Inr (r, counted mathlib_init) \<and>
        sint r = INT_MIN)"
proof -
  have c: "sint (g_call_count mathlib_init) < INT_MAX"
    by (simp add: mathlib_init_def INT_MAX_def)
  show ?thesis
    using c array_max_min [OF c, of None 3 "[4, - 7, 9]"]
    by simp
qed

section \<open>The aggregates of an absent array and of 1 to 10\<close>

lemma binary64_55_10: "binary64_div (binary64_of_int 55) (binary64_of_int 10) = 11 / 2"
  by code_simp

lemma sum_1_10: "sum_loop [1, 2, 3, 4, 5, 6, 7, 8, 9, 10] 10 0 0 = Inr 55"
  by (simp add: sum_loop.simps read_at_def as_int_def INT_MAX_def INT_MIN_def)

lemma max_1_10: "max_loop [1, 2, 3, 4, 5, 6, 7, 8, 9, 10] 10 (Suc 0) 1 = Inr 10"
  by (simp add: max_loop.simps read_at_def)

lemma min_1_10: "min_loop [1, 2, 3, 4, 5, 6, 7, 8, 9, 10] 10 (Suc 0) 1 = Inr 1"
  by (simp add: min_loop.simps read_at_def)

lemma mathlib_array_sum_absent:
  assumes "sint (g_call_count s) < INT_MAX" and "array = None \<or> sint sz \<le> 0"
  shows "mathlib_array_sum array sz s = Inr (0, counted s)"
  using assms(2)
  by (auto simp add: mathlib_array_sum_def count_call_ok [OF assms(1)] split: option.splits)

lemma mathlib_array_average_absent:
  assumes "sint (g_call_count s) < INT_MAX" and "array = None \<or> sint sz \<le> 0"
  shows "mathlib_array_average double_of_int double_div double_zero array sz s =
           Inr (double_zero, counted s)"
  using assms(2)
  by (auto simp add: mathlib_array_average_def count_call_ok [OF assms(1)])

lemma mathlib_array_sum_1_10:
  assumes "sint (g_call_count s) < INT_MAX"
  shows "mathlib_array_sum (Some [1, 2, 3, 4, 5, 6, 7, 8, 9, 10]) 10 s = Inr (55, counted s)"
  by (simp add: mathlib_array_sum_def count_call_ok [OF assms] sum_1_10)

lemma mathlib_array_average_1_10:
  assumes "sint (g_call_count s) < INT_MAX - 1"
  shows "mathlib_array_average binary64_of_int binary64_div 0
      (Some [1, 2, 3, 4, 5, 6, 7, 8, 9, 10]) 10 s = Inr (11 / 2, counted (counted s))"
proof -
  from assms have c1: "sint (g_call_count s) < INT_MAX" by simp
  have c2: "sint (g_call_count (counted s)) < INT_MAX"
    using assms sint_counted [OF c1] by simp
  show ?thesis
    by (simp add: mathlib_array_average_def count_call_ok [OF c1] mathlib_array_sum_1_10 [OF c2]
        binary64_55_10)
qed

text \<open>
  C4. With room for two more counted calls (the average of a non-empty array counts
  two): for an absent array or a non-positive \<open>sz\<close>, the sum is 0, the average is 0.0,
  the maximum is \<open>INT_MIN\<close> and the minimum is \<open>INT_MAX\<close>; for the array
  \<open>[1, ..., 10]\<close> with \<open>sz = 10\<close>, the sum is 55, the average (binary64 arithmetic) is
  5.5, the maximum is 10 and the minimum is 1.
\<close>

theorem array_aggregates_examples:
  assumes "sint (g_call_count s) < INT_MAX - 1"
  shows "(array = None \<or> sint sz \<le> 0 \<longrightarrow>
            mathlib_array_sum array sz s = Inr (0, counted s) \<and>
            mathlib_array_average binary64_of_int binary64_div 0 array sz s = Inr (0, counted s) \<and>
            (\<exists>r. mathlib_array_max array sz s = Inr (r, counted s) \<and> sint r = INT_MIN) \<and>
            (\<exists>r. mathlib_array_min array sz s = Inr (r, counted s) \<and> sint r = INT_MAX)) \<and>
         mathlib_array_sum (Some [1, 2, 3, 4, 5, 6, 7, 8, 9, 10]) 10 s = Inr (55, counted s) \<and>
         mathlib_array_average binary64_of_int binary64_div 0
             (Some [1, 2, 3, 4, 5, 6, 7, 8, 9, 10]) 10 s = Inr (11 / 2, counted (counted s)) \<and>
         mathlib_array_max (Some [1, 2, 3, 4, 5, 6, 7, 8, 9, 10]) 10 s = Inr (10, counted s) \<and>
         mathlib_array_min (Some [1, 2, 3, 4, 5, 6, 7, 8, 9, 10]) 10 s = Inr (1, counted s)"
proof -
  from assms have c1: "sint (g_call_count s) < INT_MAX" by simp
  have m10: "mathlib_array_max (Some [1, 2, 3, 4, 5, 6, 7, 8, 9, 10]) 10 s = Inr (10, counted s)"
    by (simp add: mathlib_array_max_def count_call_ok [OF c1] read_at_def max_1_10)
  have n10: "mathlib_array_min (Some [1, 2, 3, 4, 5, 6, 7, 8, 9, 10]) 10 s = Inr (1, counted s)"
    by (simp add: mathlib_array_min_def count_call_ok [OF c1] read_at_def min_1_10)
  show ?thesis
    using mathlib_array_sum_1_10 [OF c1] mathlib_array_average_1_10 [OF assms] m10 n10
    by (simp add: mathlib_array_sum_absent [OF c1] mathlib_array_average_absent [OF c1]
        mathlib_array_max_absent [OF c1] mathlib_array_min_absent [OF c1] sint_INT_MIN sint_INT_MAX)
qed

theorem array_aggregates_examples_witness:
  "sint (g_call_count mathlib_init) < INT_MAX - 1 \<and>
   mathlib_array_sum (Some []) 0 mathlib_init = Inr (0, counted mathlib_init) \<and>
   mathlib_array_average binary64_of_int binary64_div 0 (Some []) 0 mathlib_init =
     Inr (0, counted mathlib_init) \<and>
   mathlib_array_average binary64_of_int binary64_div 0
       (Some [1, 2, 3, 4, 5, 6, 7, 8, 9, 10]) 10 mathlib_init =
     Inr (11 / 2, counted (counted mathlib_init))"
proof -
  have c: "sint (g_call_count mathlib_init) < INT_MAX - 1"
    by (simp add: mathlib_init_def INT_MAX_def)
  show ?thesis
    using c array_aggregates_examples [OF c, of "Some []" 0]
    by simp
qed

section \<open>Factorial\<close>

lemma prod_2_20: "\<Prod> {2..20::int} = 2432902008176640000"
  by code_simp

lemma prod_upto_bounds:
  assumes "i \<le> 20"
  shows "0 \<le> \<Prod> {2..i::int} \<and> \<Prod> {2..i::int} \<le> 2432902008176640000"
proof -
  have "\<Prod> {2..i} \<le> \<Prod> {2..20::int}"
    using assms by (intro prod_mono2) auto
  moreover have "0 \<le> \<Prod> {2..i}"
    by (intro prod_nonneg) auto
  ultimately show ?thesis by (simp add: prod_2_20)
qed

lemma prod_upto_step: "2 \<le> i \<Longrightarrow> \<Prod> {2..i - 1} * i = \<Prod> {2..i::int}"
proof -
  assume "2 \<le> i"
  then have "{2..1 + (i - 1)} = insert (1 + (i - 1)) {2..i - 1}"
    by (intro atLeastAtMostPlus1_int_conv) simp
  then have "{2..i} = insert i {2..i - 1}" by simp
  then show ?thesis by (simp add: mult.commute)
qed

lemma sint_llong_value:
  "- 9223372036854775808 \<le> v \<Longrightarrow> v \<le> 9223372036854775807 \<Longrightarrow>
     sint (word_of_int v :: c_llong) = v"
  by (simp add: sint_sbintrunc' signed_take_bit_int_eq_self)

lemma factorial_loop_product:
  "2 \<le> i \<Longrightarrow> i \<le> min (sint n) 20 + 1 \<Longrightarrow> sint result = \<Prod> {2..i - 1} \<Longrightarrow>
   \<exists>r. factorial_loop n i result = Inr r \<and> sint r = \<Prod> {2..min (sint n) 20}"
proof (induction n i result rule: factorial_loop.induct)
  case (1 n i result)
  show ?case
  proof (cases "i \<le> sint n \<and> i \<le> 20")
    case True
    have v: "sint result * i = \<Prod> {2..i}"
      using "1.prems" by (simp add: prod_upto_step)
    have b: "0 \<le> \<Prod> {2..i} \<and> \<Prod> {2..i} \<le> 2432902008176640000"
      using True by (intro prod_upto_bounds) simp
    let ?r = "word_of_int (\<Prod> {2..i}) :: c_llong"
    have a: "as_llong (sint result * i) = Inr ?r"
      using b by (simp add: v as_llong_def LLONG_MAX_def LLONG_MIN_def)
    have "sint ?r = \<Prod> {2..i}"
      using b by (intro sint_llong_value) simp_all
    then have "sint ?r = \<Prod> {2..i + 1 - 1}"
      by simp
    with "1.IH" [OF True a] "1.prems" True
    obtain r where "factorial_loop n (i + 1) ?r = Inr r" "sint r = \<Prod> {2..min (sint n) 20}"
      by auto
    then show ?thesis
      using True a by (subst factorial_loop.simps) simp
  next
    case False
    with "1.prems" have "min (sint n) 20 = i - 1" by auto
    with False "1.prems" show ?thesis
      by (subst factorial_loop.simps) auto
  qed
qed

lemma sint_eq_1_iff: "sint (n :: c_int) = 1 \<longleftrightarrow> n = 1"
  using word_eq_iff_signed [where 'a = int, of n 1] by simp

text \<open>
  C6. In a state whose call counter can still be incremented, \<open>mathlib_factorial n\<close>
  returns -1 when \<open>n < 0\<close>, 1 when \<open>n\<close> is 0 or 1, and otherwise the product of the
  integers from 2 to \<open>min n 20\<close>, which always fits a \<^verbatim>\<open>long long\<close>. In particular
  \<open>factorial(5) = 120\<close> and \<open>factorial(21) = factorial(20)\<close>.
\<close>

theorem factorial_capped_at_20:
  assumes "sint (g_call_count s) < INT_MAX"
  shows "(sint n < 0 \<longrightarrow> mathlib_factorial n s = Inr (- 1, counted s)) \<and>
         (sint n = 0 \<or> sint n = 1 \<longrightarrow> mathlib_factorial n s = Inr (1, counted s)) \<and>
         (1 < sint n \<longrightarrow>
            (\<exists>r. mathlib_factorial n s = Inr (r, counted s) \<and> sint r = \<Prod> {2..min (sint n) 20})) \<and>
         mathlib_factorial 5 s = Inr (120, counted s) \<and>
         mathlib_factorial 21 s = mathlib_factorial 20 s"
proof -
  have neg: "sint n < 0 \<Longrightarrow> mathlib_factorial n s = Inr (- 1, counted s)"
    by (simp add: mathlib_factorial_def count_call_ok [OF assms])
  have small: "sint n = 0 \<or> sint n = 1 \<Longrightarrow> mathlib_factorial n s = Inr (1, counted s)"
    by (auto simp add: mathlib_factorial_def count_call_ok [OF assms] signed_eq_0_iff sint_eq_1_iff)
  have big: "\<exists>r. mathlib_factorial n s = Inr (r, counted s) \<and> sint r = \<Prod> {2..min (sint n) 20}"
    if "1 < sint n"
  proof -
    from that have "n \<noteq> 0" "n \<noteq> 1" by auto
    moreover from that factorial_loop_product [of 2 n 1]
    obtain r where "factorial_loop n 2 1 = Inr r" "sint r = \<Prod> {2..min (sint n) 20}"
      by auto
    ultimately show ?thesis
      using that by (simp add: mathlib_factorial_def count_call_ok [OF assms])
  qed
  have f5: "mathlib_factorial 5 s = Inr (120, counted s)"
    by (simp add: mathlib_factorial_def count_call_ok [OF assms] factorial_loop.simps
        as_llong_def LLONG_MAX_def LLONG_MIN_def)
  have f20: "mathlib_factorial 20 s = Inr (2432902008176640000, counted s)"
    by (simp add: mathlib_factorial_def count_call_ok [OF assms] factorial_loop.simps
        as_llong_def LLONG_MAX_def LLONG_MIN_def)
  have f21: "mathlib_factorial 21 s = Inr (2432902008176640000, counted s)"
    by (simp add: mathlib_factorial_def count_call_ok [OF assms] factorial_loop.simps
        as_llong_def LLONG_MAX_def LLONG_MIN_def)
  show ?thesis
    using neg small big f5 f20 f21 by simp
qed

theorem factorial_capped_at_20_witness:
  "sint (g_call_count mathlib_init) < INT_MAX \<and>
   mathlib_factorial (- 3) mathlib_init = Inr (- 1, counted mathlib_init) \<and>
   mathlib_factorial 0 mathlib_init = Inr (1, counted mathlib_init) \<and>
   (\<exists>r. mathlib_factorial 25 mathlib_init = Inr (r, counted mathlib_init) \<and>
        sint r = 2432902008176640000) \<and>
   mathlib_factorial 5 mathlib_init = Inr (120, counted mathlib_init) \<and>
   mathlib_factorial 21 mathlib_init = mathlib_factorial 20 mathlib_init"
proof -
  have c: "sint (g_call_count mathlib_init) < INT_MAX"
    by (simp add: mathlib_init_def INT_MAX_def)
  show ?thesis
    using c factorial_capped_at_20 [OF c, of "- 3"] factorial_capped_at_20 [OF c, of 0]
      factorial_capped_at_20 [OF c, of 25]
    by (simp add: prod_2_20)
qed

section \<open>Pseudo-random numbers\<close>

lemma unat_masked_31: "unat (w AND 0x7fffffff :: c_uint) = unat w mod 2 ^ 31"
proof -
  have "(0x7fffffff :: c_uint) = mask 31"
    by (simp add: mask_eq_exp_minus_1)
  then have "unat (w AND 0x7fffffff) = unat (take_bit 31 w)"
    by (simp only: take_bit_eq_mask)
  also have "\<dots> = take_bit 31 (unat w)"
    by (fact unsigned_take_bit_eq)
  also have "\<dots> = unat w mod 2 ^ 31"
    by (fact take_bit_eq_mod)
  finally show ?thesis .
qed

lemma unat_seed_step:
  "unat ((w * 1103515245 + 12345) AND 0x7fffffff :: c_uint) = lcg_next (unat w)"
proof -
  have "unat (w * 1103515245 + 12345 :: c_uint) = (unat w * 1103515245 + 12345) mod 2 ^ 32"
    by (simp add: unat_word_ariths mod_simps)
  moreover have "(2::nat) ^ 31 dvd 2 ^ 32"
    by (intro le_imp_power_dvd) simp
  ultimately show ?thesis
    by (simp only: unat_masked_31 lcg_next_def mod_mod_cancel)
qed

lemma lcg_next_less: "lcg_next x < 2 ^ 31"
  by (simp add: lcg_next_def)

lemma unat_of_lcg: "unat (of_nat (lcg_next x) :: c_uint) = lcg_next x"
  using lcg_next_less [of x] by (simp add: unat_of_nat)

lemma unat_of_output:
  "unat (of_nat (lcg_next x mod 2147483647) :: c_uint) = lcg_next x mod 2147483647"
proof -
  have "lcg_next x mod 2147483647 < 2147483647" by simp
  then show ?thesis by (simp add: unat_of_nat)
qed

lemma word_of_unat_seed_step:
  "((w * 1103515245 + 12345) AND 0x7fffffff :: c_uint) = of_nat (lcg_next (unat w))"
  by (simp only: word_unat_eq_iff unat_seed_step unat_of_lcg)

lemma mathlib_random_value:
  assumes "sint (g_call_count s) < INT_MAX"
  shows "mathlib_random s =
     Inr (of_nat (lcg_next (unat (g_random_seed s)) mod 2147483647),
          (counted s)\<lparr>g_random_seed := of_nat (lcg_next (unat (g_random_seed s)))\<rparr>)"
proof -
  let ?seed = "(g_random_seed s * 1103515245 + 12345) AND 0x7fffffff"
  have "unat (?seed mod 2147483647) = lcg_next (unat (g_random_seed s)) mod 2147483647"
    by (simp only: unat_mod unat_seed_step) simp
  then have "?seed mod 2147483647 = of_nat (lcg_next (unat (g_random_seed s)) mod 2147483647)"
    by (simp only: word_unat_eq_iff unat_of_output)
  then show ?thesis
    by (simp add: mathlib_random_def count_call_ok [OF assms] RAND_MAX_def Let_def
        word_of_unat_seed_step)
qed

lemma sint_of_output:
  "sint (of_nat (lcg_next x mod 2147483647) :: c_int) = int (lcg_next x mod 2147483647)"
proof -
  have "lcg_next x mod 2147483647 < 2147483647" by simp
  then have "int (lcg_next x mod 2147483647) \<le> 2147483647" by linarith
  then have "sint (word_of_int (int (lcg_next x mod 2147483647)) :: c_int) =
      int (lcg_next x mod 2147483647)"
    by (intro sint_as_int_value) simp_all
  then show ?thesis by simp
qed

lemma random_sequence_outputs:
  "sint (g_call_count s) + int k \<le> INT_MAX \<Longrightarrow>
     \<exists>s'. random_sequence k s = Inr (map of_nat (lcg_outputs k (unat (g_random_seed s))), s')"
proof (induction k arbitrary: s)
  case 0
  then show ?case by simp
next
  case (Suc k)
  let ?x = "unat (g_random_seed s)"
  let ?s1 = "(counted s)\<lparr>g_random_seed := of_nat (lcg_next ?x)\<rparr>"
  from Suc.prems have c: "sint (g_call_count s) < INT_MAX" by simp
  have "sint (g_call_count ?s1) + int k \<le> INT_MAX"
    using Suc.prems sint_counted [OF c] by simp
  from Suc.IH [OF this] obtain s' where
    "random_sequence k ?s1 = Inr (map of_nat (lcg_outputs k (unat (g_random_seed ?s1))), s')"
    by blast
  moreover have "unat (g_random_seed ?s1) = lcg_next ?x"
    by (simp add: unat_of_lcg)
  ultimately have rest: "random_sequence k ?s1 = Inr (map of_nat (lcg_outputs k (lcg_next ?x)), s')"
    by (simp only:)
  have "random_sequence (Suc k) s =
      and_then (mathlib_random s) (\<lambda>(r, s1).
       and_then (random_sequence k s1) (\<lambda>(rs, s2). Inr (r # rs, s2)))"
    by (rule random_sequence.simps(2))
  also have "\<dots> = and_then (random_sequence k ?s1)
      (\<lambda>(rs, s2). Inr (of_nat (lcg_next ?x mod 2147483647) # rs, s2))"
    unfolding mathlib_random_value [OF c] and_then_Inr prod.case ..
  also have "\<dots> = Inr (of_nat (lcg_next ?x mod 2147483647) #
      map of_nat (lcg_outputs k (lcg_next ?x)), s')"
    unfolding rest and_then_Inr prod.case ..
  also have "\<dots> = Inr (map of_nat (lcg_outputs (Suc k) ?x), s')"
    unfolding lcg_outputs.simps list.map ..
  finally show ?case ..
qed

lemma lcg_outputs_42:
  "lcg_outputs 5 42 = [1250496027, 1116302264, 1000676753, 1668674806, 908095735]"
proof -
  have "lcg_outputs (Suc (Suc (Suc (Suc (Suc 0))))) 42 =
      [1250496027, 1116302264, 1000676753, 1668674806, 908095735]"
    by (simp add: lcg_next_def)
  moreover have "(5::nat) = Suc (Suc (Suc (Suc (Suc 0))))"
    by simp
  ultimately show ?thesis
    by (simp only:)
qed

lemma random_after_set_seed_42:
  assumes "sint (g_call_count s) + 6 \<le> INT_MAX"
  shows "\<exists>s'. and_then (mathlib_set_global_seed 42 s) (\<lambda>(u, s1). random_sequence 5 s1) =
     Inr ([1250496027, 1116302264, 1000676753, 1668674806, 908095735], s')"
proof -
  from assms have c: "sint (g_call_count s) < INT_MAX" by simp
  let ?s1 = "(counted s)\<lparr>g_random_seed := 42\<rparr>"
  have "sint (g_call_count ?s1) + int 5 \<le> INT_MAX"
    using assms sint_counted [OF c] by simp
  from random_sequence_outputs [OF this] obtain s' where
    "random_sequence 5 ?s1 = Inr (map of_nat (lcg_outputs 5 42), s')"
    by auto
  then show ?thesis
    by (simp add: mathlib_set_global_seed_def count_call_ok [OF c] lcg_outputs_42)
qed

text \<open>
  C8. In a state whose call counter can still be incremented, \<open>mathlib_random\<close> stores
  as the new seed \<open>(seed * 1103515245 + 12345) mod 2^31\<close> (\<open>lcg_next\<close> of the old
  seed, read as unsigned numbers: the wrap-around at \<open>2^32\<close> disappears under the
  mask) and returns the non-negative \<^verbatim>\<open>int\<close> whose value is the new seed modulo
  \<open>RAND_MAX = 2^31 - 1\<close>. So the results of \<open>k\<close> calls in a row are the first \<open>k\<close>
  outputs of that recurrence from the stored seed, whatever else the state holds, as
  long as the counter has room for the calls; after \<open>set_seed(42)\<close> the first five
  are 1250496027, 1116302264, 1000676753, 1668674806 and 908095735.
\<close>

theorem random_is_lcg_step:
  assumes "sint (g_call_count s) < INT_MAX"
  shows "mathlib_random s =
           Inr (of_nat (lcg_next (unat (g_random_seed s)) mod 2147483647),
                (counted s)\<lparr>g_random_seed := of_nat (lcg_next (unat (g_random_seed s)))\<rparr>) \<and>
         unat (of_nat (lcg_next (unat (g_random_seed s))) :: c_uint) =
           lcg_next (unat (g_random_seed s)) \<and>
         sint (of_nat (lcg_next (unat (g_random_seed s)) mod 2147483647) :: c_int) =
           int (lcg_next (unat (g_random_seed s)) mod 2147483647) \<and>
         (sint (g_call_count s) + int k \<le> INT_MAX \<longrightarrow>
            (\<exists>s'. random_sequence k s =
               Inr (map of_nat (lcg_outputs k (unat (g_random_seed s))), s'))) \<and>
         (sint (g_call_count s) + 6 \<le> INT_MAX \<longrightarrow>
            (\<exists>s'. and_then (mathlib_set_global_seed 42 s) (\<lambda>(u, s1). random_sequence 5 s1) =
               Inr ([1250496027, 1116302264, 1000676753, 1668674806, 908095735], s')))"
  using random_sequence_outputs [of s k] random_after_set_seed_42 [of s]
  by (intro conjI impI mathlib_random_value [OF assms] unat_of_lcg sint_of_output)

theorem random_is_lcg_step_witness:
  "sint (g_call_count mathlib_init) < INT_MAX \<and>
   sint (g_call_count mathlib_init) + int 1 \<le> INT_MAX \<and>
   (\<exists>s'. random_sequence 1 mathlib_init = Inr ([1406932606], s')) \<and>
   sint (g_call_count mathlib_init) + 6 \<le> INT_MAX \<and>
   (\<exists>s'. and_then (mathlib_set_global_seed 42 mathlib_init) (\<lambda>(u, s1). random_sequence 5 s1) =
      Inr ([1250496027, 1116302264, 1000676753, 1668674806, 908095735], s'))"
proof -
  have c: "sint (g_call_count mathlib_init) < INT_MAX"
    and c1: "sint (g_call_count mathlib_init) + int 1 \<le> INT_MAX"
    and c6: "sint (g_call_count mathlib_init) + 6 \<le> INT_MAX"
    by (simp_all add: mathlib_init_def INT_MAX_def)
  have "lcg_outputs (Suc 0) 12345 = [1406932606]"
    by (simp add: lcg_next_def)
  then have o1: "map of_nat (lcg_outputs 1 (unat (g_random_seed mathlib_init))) =
      [1406932606 :: c_int]"
    by (simp add: mathlib_init_def)
  from random_is_lcg_step [OF c, of 1] c1 c6
  have "\<exists>s'. random_sequence 1 mathlib_init =
      Inr (map of_nat (lcg_outputs 1 (unat (g_random_seed mathlib_init))), s')"
    and "\<exists>s'. and_then (mathlib_set_global_seed 42 mathlib_init)
        (\<lambda>(u, s1). random_sequence 5 s1) =
      Inr ([1250496027, 1116302264, 1000676753, 1668674806, 908095735], s')"
    by blast+
  with c c1 c6 show ?thesis
    by (simp only: o1 simp_thms)
qed

section \<open>The call counter\<close>

lemma and_then_eq_Inr: "and_then m f = Inr y \<longleftrightarrow> (\<exists>x. m = Inr x \<and> f x = Inr y)"
  by (cases m) simp_all

lemma state_after_eq_Inr: "state_after m = Inr s' \<longleftrightarrow> (\<exists>r. m = Inr (r, s'))"
  by (cases m) (auto simp add: state_after_def)

lemma count_call_Inr:
  assumes "count_call s = Inr s1"
  shows "sint (g_call_count s1) = sint (g_call_count s) + 1"
proof -
  from assms have "sint (g_call_count s) < INT_MAX"
    using sint_int_bounds [of "g_call_count s"]
    by (auto simp add: count_call_def as_int_def INT_MAX_def INT_MIN_def split: if_splits)
  with assms show ?thesis
    by (auto simp add: count_call_ok sint_counted)
qed

lemma run_call_increments:
  assumes "run_call c s = Inr s'" and "callback_keeps_count c"
  shows "sint (g_call_count s') = sint (g_call_count s) + increments c"
proof (cases c)
  case (ArrayAverage double_of_int double_div double_zero array sz)
  show ?thesis
  proof (cases "array = None \<or> sint sz \<le> 0")
    case True
    with assms ArrayAverage show ?thesis
      by (auto simp add: state_after_eq_Inr mathlib_array_average_def and_then_eq_Inr
          dest: count_call_Inr)
  next
    case False
    with assms ArrayAverage obtain s1 r s2 where
      "count_call s = Inr s1" "mathlib_array_sum array sz s1 = Inr (r, s2)" "s' = s2"
      by (auto simp add: state_after_eq_Inr mathlib_array_average_def and_then_eq_Inr)
    moreover from this obtain s3 where "count_call s1 = Inr s3" "s2 = s3"
      by (auto simp add: mathlib_array_sum_def and_then_eq_Inr split: option.splits if_splits)
    ultimately show ?thesis
      using False ArrayAverage by (auto dest!: count_call_Inr)
  qed
next
  case (ApplyOperation val operation)
  with assms show ?thesis
    by (cases operation)
      (auto simp add: state_after_eq_Inr mathlib_apply_operation_def and_then_eq_Inr
        dest!: count_call_Inr)
qed (use assms in \<open>auto simp add: state_after_eq_Inr and_then_eq_Inr Let_def
      mathlib_version_def mathlib_version_major_def mathlib_version_minor_def
      mathlib_add_def mathlib_subtract_def mathlib_multiply_def mathlib_divide_def
      mathlib_factorial_def mathlib_fibonacci_def mathlib_gcd_def mathlib_is_prime_def
      mathlib_array_sum_def mathlib_array_max_def mathlib_array_min_def
      mathlib_set_global_seed_def mathlib_get_global_seed_def mathlib_random_def
      mathlib_point_distance_def
      split: option.splits if_splits dest!: count_call_Inr\<close>)


lemma increments_nonneg: "0 \<le> increments c"
  by (cases c) simp_all

lemma run_calls_increments:
  "run_calls cs s = Inr t \<Longrightarrow> list_all callback_keeps_count cs \<Longrightarrow>
     sint (g_call_count t) = sint (g_call_count s) + sum_list (map increments cs)"
proof (induction cs arbitrary: s)
  case Nil
  then show ?case by simp
next
  case (Cons c cs)
  from Cons.prems obtain s1 where s1: "run_call c s = Inr s1" and rest: "run_calls cs s1 = Inr t"
    by (auto simp add: and_then_eq_Inr)
  from Cons.prems have "callback_keeps_count c" and "list_all callback_keeps_count cs"
    by simp_all
  with run_call_increments [OF s1] Cons.IH [OF rest] show ?case
    by simp
qed

text \<open>
  C1, as stated, fails: one call of \<open>mathlib_array_average\<close> on the array
  \<open>[1, ..., 10]\<close> moves the call counter from 0 to 2.
\<close>

theorem average_counts_twice_counterexample:
  "mathlib_array_average binary64_of_int binary64_div 0
       (Some [1, 2, 3, 4, 5, 6, 7, 8, 9, 10]) 10 mathlib_init =
     Inr (11 / 2, mathlib_init\<lparr>g_call_count := 2\<rparr>) \<and>
   sint (g_call_count (mathlib_init\<lparr>g_call_count := 2\<rparr>)) \<noteq> sint (g_call_count mathlib_init) + 1"
proof -
  have c: "sint (g_call_count mathlib_init) < INT_MAX - 1"
    by (simp add: mathlib_init_def INT_MAX_def)
  have "counted (counted mathlib_init) = mathlib_init\<lparr>g_call_count := 2\<rparr>"
    by (simp add: counted_def mathlib_init_def)
  with mathlib_array_average_1_10 [OF c] show ?thesis
    by (simp add: mathlib_init_def)
qed

text \<open>
  C1, amended. A call that returns, with a callback (if it has one) that leaves the
  counter alone, moves the call counter by exactly \<open>increments c\<close>: 0 for
  \<open>mathlib_version_major\<close> and \<open>mathlib_version_minor\<close>, 2 for
  \<open>mathlib_array_average\<close> on a present array of positive size, 1 for every other
  call (version, add, subtract, multiply, divide, factorial, fibonacci, gcd, is_prime,
  array sum, max and min, the average of an absent array, apply_operation, set_seed,
  get_seed, random, point_distance). So a sequence of calls that returns moves the
  counter by the sum of these numbers, and never down.
\<close>

theorem call_count_increments:
  "(run_call c s = Inr s' \<and> callback_keeps_count c \<longrightarrow>
      sint (g_call_count s') = sint (g_call_count s) + increments c) \<and>
   (run_calls cs s = Inr t \<and> list_all callback_keeps_count cs \<longrightarrow>
      sint (g_call_count t) = sint (g_call_count s) + sum_list (map increments cs) \<and>
      sint (g_call_count s) \<le> sint (g_call_count t))"
proof -
  have "0 \<le> sum_list (map increments cs)"
    by (intro sum_list_nonneg) (auto simp add: increments_nonneg)
  then show ?thesis
    using run_call_increments [of c s s'] run_calls_increments [of cs s t] by auto
qed

lemma square_keeps_count: "callback_keeps_count (ApplyOperation v (Some square_callback))"
  by (auto simp add: square_callback_def and_then_eq_Inr)

lemma average_run:
  "run_call (ArrayAverage binary64_of_int binary64_div 0 (Some [1, 2]) 2) mathlib_init =
     Inr \<lparr>g_random_seed = 12345, g_call_count = 2\<rparr>"
  by code_simp

lemma sequence_run:
  "run_calls [Add 2 3, VersionMajor, ApplyOperation 7 (Some square_callback),
      ArrayAverage binary64_of_int binary64_div 0 (Some [1, 2]) 2, SetGlobalSeed 42, Random]
     mathlib_init = Inr \<lparr>g_random_seed = 1250496027, g_call_count = 6\<rparr>"
  by code_simp

theorem call_count_increments_witness:
  "run_call (ArrayAverage binary64_of_int binary64_div 0 (Some [1, 2]) 2) mathlib_init =
     Inr \<lparr>g_random_seed = 12345, g_call_count = 2\<rparr> \<and>
   callback_keeps_count (ArrayAverage binary64_of_int binary64_div 0 (Some [1, 2]) 2) \<and>
   sint (g_call_count \<lparr>g_random_seed = 12345, g_call_count = 2\<rparr>) =
     sint (g_call_count mathlib_init) + 2 \<and>
   run_calls [Add 2 3, VersionMajor, ApplyOperation 7 (Some square_callback),
      ArrayAverage binary64_of_int binary64_div 0 (Some [1, 2]) 2, SetGlobalSeed 42, Random]
     mathlib_init = Inr \<lparr>g_random_seed = 1250496027, g_call_count = 6\<rparr> \<and>
   list_all callback_keeps_count
     [Add 2 3, VersionMajor, ApplyOperation 7 (Some square_callback),
      ArrayAverage binary64_of_int binary64_div 0 (Some [1, 2]) 2, SetGlobalSeed 42, Random] \<and>
   sint (g_call_count \<lparr>g_random_seed = 1250496027, g_call_count = 6\<rparr>) =
     sint (g_call_count mathlib_init) + 6"
proof -
  let ?c = "ArrayAverage binary64_of_int binary64_div 0 (Some [1, 2]) 2"
  let ?cs = "[Add 2 3, VersionMajor, ApplyOperation 7 (Some square_callback), ?c,
    SetGlobalSeed 42, Random]"
  have k: "callback_keeps_count ?c" by simp
  have ks: "list_all callback_keeps_count ?cs"
    using square_keeps_count [of 7] by simp
  from call_count_increments
    [of ?c mathlib_init "\<lparr>g_random_seed = 12345, g_call_count = 2\<rparr>" ?cs
      "\<lparr>g_random_seed = 1250496027, g_call_count = 6\<rparr>"]
    average_run sequence_run k ks
  show ?thesis
    by simp
qed

section \<open>Primality by trial division\<close>

lemma prime_intI:
  assumes "1 < n" and "\<And>d. 2 \<le> d \<Longrightarrow> d < n \<Longrightarrow> d dvd n \<Longrightarrow> False"
  shows "prime_int n"
  using assms by (auto simp add: prime_int_def)

lemma prime_intD: "prime_int n \<Longrightarrow> 2 \<le> d \<Longrightarrow> d < n \<Longrightarrow> \<not> d dvd n"
  by (auto simp add: prime_int_def)

lemma prime_int_gt_1: "prime_int n \<Longrightarrow> 1 < n"
  by (simp add: prime_int_def)

lemma prime_int_from_small:
  assumes n: "1 < n" and sq: "n < i * i" and i: "0 < i"
    and nd: "\<And>d. 2 \<le> d \<Longrightarrow> d < i \<Longrightarrow> \<not> d dvd n"
  shows "prime_int n"
proof (rule prime_intI [OF n])
  fix d
  assume d: "2 \<le> d" "d < n" "d dvd n"
  then obtain e where e: "n = d * e" by (auto elim: dvdE)
  have "0 < d * e" "0 < d"
    using n d(1) e by simp_all
  then have "0 < e"
    by (rule zero_less_mult_pos)
  have "e \<noteq> 1" using d(2) e by auto
  with \<open>0 < e\<close> have e2: "2 \<le> e" by simp
  have ed: "e dvd n" using e by simp
  show False
  proof (cases "d < i")
    case True
    with nd [OF d(1)] d(3) show False by simp
  next
    case False
    have "e < i"
    proof (rule ccontr)
      assume "\<not> e < i"
      with False i have "i * i \<le> d * e"
        by (intro mult_mono) simp_all
      with sq e show False by simp
    qed
    with nd [OF e2] ed show False by simp
  qed
qed

lemma as_int_Inr: "as_int v = Inr w \<Longrightarrow> sint w = v \<and> v \<le> 2147483647"
  by (auto simp add: as_int_def INT_MAX_def INT_MIN_def sint_as_int_value split: if_splits)

lemma as_int_square:
  assumes "5 \<le> i"
  shows "i \<le> 46337 \<Longrightarrow> as_int (i * i) = Inr (word_of_int (i * i))"
    and "i = 46343 \<Longrightarrow> as_int (i * i) = Inl SignedOverflow"
proof -
  assume le: "i \<le> 46337"
  with assms have "i * i \<le> 46337 * 46337"
    by (intro mult_mono) simp_all
  moreover have "- 2147483648 \<le> i * i"
  proof -
    have "0 \<le> i * i" by simp
    then show ?thesis by linarith
  qed
  ultimately show "as_int (i * i) = Inr (word_of_int (i * i))"
    by (simp add: as_int_def INT_MAX_def INT_MIN_def)
next
  assume "i = 46343"
  then show "as_int (i * i) = Inl SignedOverflow"
    by (simp add: as_int_def INT_MAX_def INT_MIN_def)
qed


lemma smod_eq_0_iff_dvd:
  "0 \<le> (a::int) \<Longrightarrow> 0 < b \<Longrightarrow> a smod b = 0 \<longleftrightarrow> b dvd a"
  by (simp add: smod_mod_positive mod_eq_0_iff_dvd)

lemma candidates_cover:
  assumes i: "i mod 6 = 5" and two: "\<not> 2 dvd (n::int)" and three: "\<not> 3 dvd n"
    and below: "\<And>d. 2 \<le> d \<Longrightarrow> d < i \<Longrightarrow> \<not> d dvd n"
    and here: "\<not> i dvd n" "\<not> (i + 2) dvd n"
    and d: "2 \<le> d" "d < i + 6"
  shows "\<not> d dvd n"
proof
  assume dn: "d dvd n"
  from d consider "d < i" | "d = i" | "d = i + 2" | "d = i + 1 \<or> d = i + 3 \<or> d = i + 5" | "d = i + 4"
    by linarith
  then show False
  proof cases
    case 1
    with below [OF d(1)] dn show False by simp
  next
    case 2
    with here dn show False by simp
  next
    case 3
    with here dn show False by simp
  next
    case 4
    with i have "2 dvd d" by presburger
    with dn two show False by (blast intro: dvd_trans)
  next
    case 5
    with i have "3 dvd d" by presburger
    with dn three show False by (blast intro: dvd_trans)
  qed
qed

lemma is_prime_loop_trial_division:
  "3 < sint n \<Longrightarrow> 5 \<le> i \<Longrightarrow> i mod 6 = 5 \<Longrightarrow> i \<le> 46337 \<or> i = 46343 \<Longrightarrow>
   i = 5 \<or> (i - 6) * (i - 6) \<le> sint n \<Longrightarrow>
   (\<And>d. 2 \<le> d \<Longrightarrow> d < i \<Longrightarrow> \<not> d dvd sint n) \<Longrightarrow>
   is_prime_loop n i =
     (if prime_int (sint n) \<and> 2147117569 \<le> sint n then Inl SignedOverflow
      else Inr (if prime_int (sint n) then 1 else 0))"
proof (induction n i rule: is_prime_loop.induct)
  case (1 n i)
  let ?n = "sint n"
  note n3 = "1.prems"(1) and i5 = "1.prems"(2) and i6 = "1.prems"(3)
    and range = "1.prems"(4) and before = "1.prems"(5) and below = "1.prems"(6)
  from below [of 2] below [of 3] i5
  have two: "\<not> 2 dvd ?n" and three: "\<not> 3 dvd ?n" by simp_all
  show ?case
  proof (cases "i = 46343")
    case True
    have "?n < i * i"
      using sint_int_bounds [of n] True by simp
    with n3 i5 below have prime: "prime_int ?n"
      by (intro prime_int_from_small [of ?n i]) simp_all
    from before True have "2147117569 \<le> ?n" by simp
    with prime as_int_square(2) [OF i5 True] show ?thesis
      by (subst is_prime_loop.simps) simp
  next
    case False
    with range have le: "i \<le> 46337" by simp
    note sq = as_int_square(1) [OF i5 le]
    from as_int_Inr [OF sq] have sv: "sint (word_of_int (i * i) :: c_int) = i * i" by simp
    from i5 le have bound: "i * i \<le> 2147117569"
      using mult_mono [of i 46337 i 46337] by simp
    show ?thesis
    proof (cases "i * i \<le> ?n")
      case False
      with n3 i5 below have prime: "prime_int ?n"
        by (intro prime_int_from_small [of ?n i]) simp_all
      from False bound have "\<not> 2147117569 \<le> ?n" by simp
      with prime False sq sv show ?thesis
        by (subst is_prime_loop.simps) simp
    next
      case True
      have "2 * i \<le> i * i"
        using i5 by (intro mult_right_mono) simp_all
      with i5 have "i < i * i" by linarith
      with True have i_lt: "i < ?n" by simp
      have "2 * i \<le> i * i"
        using i5 by (intro mult_right_mono) simp_all
      with i5 have "i + 2 < i * i" by linarith
      with True have i2_lt: "i + 2 < ?n" by simp
      have m1: "?n smod i = 0 \<longleftrightarrow> i dvd ?n"
        using n3 i5 by (intro smod_eq_0_iff_dvd) simp_all
      have m2: "?n smod (i + 2) = 0 \<longleftrightarrow> (i + 2) dvd ?n"
        using n3 i5 by (intro smod_eq_0_iff_dvd) simp_all
      show ?thesis
      proof (cases "i dvd ?n \<or> (i + 2) dvd ?n")
        case True
        then obtain d where "d dvd ?n" "2 \<le> d" "d < ?n"
          using i5 i_lt i2_lt by auto
        then have "\<not> prime_int ?n"
          by (auto dest: prime_intD)
        with True sq sv \<open>i * i \<le> ?n\<close> m1 m2 show ?thesis
          by (subst is_prime_loop.simps) simp
      next
        case False
        then have here: "\<not> i dvd ?n" "\<not> (i + 2) dvd ?n" by simp_all
        have step: "is_prime_loop n i = is_prime_loop n (i + 6)"
          using False sq sv \<open>i * i \<le> ?n\<close> m1 m2 by (subst is_prime_loop.simps) simp
        have "is_prime_loop n (i + 6) =
            (if prime_int ?n \<and> 2147117569 \<le> ?n then Inl SignedOverflow
             else Inr (if prime_int ?n then 1 else 0))"
        proof (rule "1.IH" [OF sq _ _ n3])
          show "sint (word_of_int (i * i) :: c_int) \<le> ?n"
            using sv True by simp
          show "\<not> (?n smod i = 0 \<or> ?n smod (i + 2) = 0)"
            using False m1 m2 by simp
          show "5 \<le> i + 6" using i5 by simp
          show "(i + 6) mod 6 = 5" using i6 by presburger
          show "i + 6 \<le> 46337 \<or> i + 6 = 46343" using le i6 by presburger
          show "i + 6 = 5 \<or> (i + 6 - 6) * (i + 6 - 6) \<le> ?n" using True by simp
          show "\<not> d dvd ?n" if "2 \<le> d" "d < i + 6" for d
            using candidates_cover [OF i6 two three below here that] .
        qed
        with step show ?thesis by simp
      qed
    qed
  qed
qed


lemma mathlib_is_prime_value:
  assumes cnt: "sint (g_call_count s) < INT_MAX"
  shows "mathlib_is_prime n s =
     (if prime_int (sint n) \<and> 2147117569 \<le> sint n then Inl SignedOverflow
      else Inr (if prime_int (sint n) then 1 else 0, counted s))"
proof -
  let ?n = "sint n"
  consider "?n \<le> 1" | "?n = 2 \<or> ?n = 3" | "3 < ?n" "2 dvd ?n \<or> 3 dvd ?n"
    | "3 < ?n" "\<not> 2 dvd ?n" "\<not> 3 dvd ?n"
    by linarith
  then show ?thesis
  proof cases
    case 1
    then have "\<not> prime_int ?n"
      by (auto dest: prime_int_gt_1)
    with 1 show ?thesis
      by (simp add: mathlib_is_prime_def count_call_ok [OF cnt])
  next
    case 2
    then have "prime_int ?n"
      by (auto simp add: prime_int_def)
    with 2 show ?thesis
      by (auto simp add: mathlib_is_prime_def count_call_ok [OF cnt])
  next
    case 3
    then have "\<not> prime_int ?n"
      using prime_intD [of ?n 2] prime_intD [of ?n 3] by auto
    moreover from 3 have "?n smod 2 = 0 \<or> ?n smod 3 = 0"
      by (simp add: smod_eq_0_iff_dvd)
    ultimately show ?thesis
      using 3 by (simp add: mathlib_is_prime_def count_call_ok [OF cnt])
  next
    case 4
    then have tests: "\<not> (?n smod 2 = 0 \<or> ?n smod 3 = 0)"
      by (simp add: smod_eq_0_iff_dvd)
    have below: "\<not> d dvd ?n" if "2 \<le> d" "d < 5" for d
    proof -
      from that consider "d = 2" | "d = 3" | "d = 4" by linarith
      then show ?thesis
      proof cases
        case 3
        then have "2 dvd d" by simp
        with 4(2) show ?thesis by (blast intro: dvd_trans)
      qed (use 4 in simp_all)
    qed
    have "is_prime_loop n 5 =
        (if prime_int ?n \<and> 2147117569 \<le> ?n then Inl SignedOverflow
         else Inr (if prime_int ?n then 1 else 0))"
      using 4(1) below by (intro is_prime_loop_trial_division) simp_all
    with 4(1) tests show ?thesis
      by (simp add: mathlib_is_prime_def count_call_ok [OF cnt])
  qed
qed

lemma is_prime_17:
  assumes "sint (g_call_count s) < INT_MAX"
  shows "mathlib_is_prime 17 s = Inr (1, counted s)"
  by (simp add: mathlib_is_prime_def count_call_ok [OF assms] is_prime_loop.simps as_int_def
      INT_MAX_def INT_MIN_def)

lemma is_prime_18:
  assumes "sint (g_call_count s) < INT_MAX"
  shows "mathlib_is_prime 18 s = Inr (0, counted s)"
  by (simp add: mathlib_is_prime_def count_call_ok [OF assms] smod_int_alt_def)

text \<open>
  The last two rounds of the loop on the prime \<open>2^31 - 1\<close>: the round for \<open>i = 46337\<close>
  finds no divisor, and the square of \<open>i = 46343\<close> is not representable.
\<close>

lemma is_prime_loop_last_rounds: "is_prime_loop 2147483647 46337 = Inl SignedOverflow"
  by (simp add: is_prime_loop.simps as_int_def INT_MAX_def INT_MIN_def smod_int_alt_def)

text \<open>
  C7. In a state whose call counter can still be incremented, \<open>mathlib_is_prime n\<close>
  returns 1 when \<open>n\<close> is prime and 0 when it is not, for every \<open>n\<close> but the primes
  from \<open>46337^2 = 2147117569\<close> on: for those the loop reaches \<open>i = 46343\<close>, whose
  square overflows \<^verbatim>\<open>int\<close>, and the call is undefined. In particular
  \<open>is_prime(17)\<close> is 1 and \<open>is_prime(18)\<close> is 0.
\<close>

theorem is_prime_trial_division:
  assumes "sint (g_call_count s) < INT_MAX"
  shows "mathlib_is_prime n s =
           (if prime_int (sint n) \<and> 2147117569 \<le> sint n then Inl SignedOverflow
            else Inr (if prime_int (sint n) then 1 else 0, counted s)) \<and>
         mathlib_is_prime 17 s = Inr (1, counted s) \<and>
         mathlib_is_prime 18 s = Inr (0, counted s)"
  by (intro conjI mathlib_is_prime_value [OF assms] is_prime_17 [OF assms] is_prime_18 [OF assms])

theorem is_prime_trial_division_witness:
  "sint (g_call_count mathlib_init) < INT_MAX \<and>
   mathlib_is_prime 17 mathlib_init = Inr (1, counted mathlib_init) \<and>
   mathlib_is_prime 18 mathlib_init = Inr (0, counted mathlib_init) \<and>
   prime_int (sint (17 :: c_int)) \<and> \<not> prime_int (sint (18 :: c_int))"
proof -
  have c: "sint (g_call_count mathlib_init) < INT_MAX"
    by (simp add: mathlib_init_def INT_MAX_def)
  from is_prime_trial_division [OF c, of 17] is_prime_trial_division [OF c, of 18]
  have "mathlib_is_prime 17 mathlib_init = Inr (1, counted mathlib_init)"
    and "mathlib_is_prime 18 mathlib_init = Inr (0, counted mathlib_init)"
    and "Inr (1, counted mathlib_init) =
      (if prime_int (sint (17 :: c_int)) \<and> 2147117569 \<le> sint (17 :: c_int) then Inl SignedOverflow
       else Inr (if prime_int (sint (17 :: c_int)) then (1 :: c_int) else 0, counted mathlib_init))"
    and "Inr (0, counted mathlib_init) =
      (if prime_int (sint (18 :: c_int)) \<and> 2147117569 \<le> sint (18 :: c_int) then Inl SignedOverflow
       else Inr (if prime_int (sint (18 :: c_int)) then (1 :: c_int) else 0, counted mathlib_init))"
    by simp_all
  with c show ?thesis
    by (simp split: if_splits)
qed

end
